theory Spec2Isabelle
  imports Main "HOL-Library.Word"
begin

section \<open>Strings and JSON values\<close>

text \<open>
  A JavaScript string is a sequence of 16-bit code units. \<open>str\<close> turns an ASCII literal
  of the source into such a sequence.
\<close>

type_synonym jsstring = "16 word list"

definition str :: "string \<Rightarrow> jsstring" where
  "str s = map of_char s"

text \<open>
  \<open>String.prototype.trim\<close> removes the code units of the ECMAScript productions
  WhiteSpace (TAB, VT, FF, ZWNBSP and the space separators) and LineTerminator
  (LF, CR, LS, PS) from both ends.
\<close>

definition is_white_space :: "16 word \<Rightarrow> bool" where
  "is_white_space c =
     (c = 0x0009 \<or> c = 0x000A \<or> c = 0x000B \<or> c = 0x000C \<or> c = 0x000D \<or> c = 0x0020
      \<or> c = 0x00A0 \<or> c = 0x1680 \<or> (0x2000 \<le> c \<and> c \<le> 0x200A) \<or> c = 0x2028
      \<or> c = 0x2029 \<or> c = 0x202F \<or> c = 0x205F \<or> c = 0x3000 \<or> c = 0xFEFF)"

definition js_trim :: "jsstring \<Rightarrow> jsstring" where
  "js_trim s = rev (dropWhile is_white_space (rev (dropWhile is_white_space s)))"

text \<open>
  A JSON value. A number \<open>JNumber m e\<close> is the decimal \<open>m * 10 ^ e\<close>; an object is the
  list of its members in property order.
\<close>

datatype json =
    JNull
  | JBool bool
  | JNumber int int
  | JString jsstring
  | JArray "json list"
  | JObject "(jsstring \<times> json) list"

section \<open>JSON.stringify and JSON.parse\<close>

text \<open>
  The two builtins the admin view calls, after ECMA-262 (25.5): \<open>JSON.stringify(value,
  null, 2)\<close> and \<open>JSON.parse(text)\<close> without a reviver.

  Numbers are kept as exact decimals: \<open>JNumber m e\<close> is \<open>m * 10 ^ e\<close>, and the canonical
  form has no trailing zero in \<open>m\<close> (and \<open>e = 0\<close> for zero). Number::toString lays the
  digits out from this form; \<open>JSON.parse\<close> reads a literal to its exact decimal value.
  The rounding of a literal to the nearest IEEE double, and with it the sign of zero and
  the overflow to infinity, is floating point and is not modelled: the model is the
  engine's behaviour on the decimals that a double holds without loss (integers up to
  \<open>2 ^ 53\<close>, decimals of up to 15 significant digits in the range of doubles).
\<close>

subsection \<open>Numbers\<close>

definition digit_char :: "nat \<Rightarrow> 16 word" where
  "digit_char d = of_nat (48 + d)"

definition is_digit :: "16 word \<Rightarrow> bool" where
  "is_digit c = (0x30 \<le> c \<and> c \<le> 0x39)"

definition digit_value :: "16 word \<Rightarrow> nat" where
  "digit_value c = unat c - 48"

fun decimal :: "nat \<Rightarrow> jsstring" where
  "decimal n = (if n < 10 then [digit_char n] else decimal (n div 10) @ [digit_char (n mod 10)])"

declare decimal.simps [simp del]

definition digits_value :: "jsstring \<Rightarrow> nat" where
  "digits_value ds = foldl (\<lambda>a c. 10 * a + digit_value c) 0 ds"

fun normalize_decimal :: "nat \<Rightarrow> int \<Rightarrow> nat \<times> int" where
  "normalize_decimal s e =
     (if s = 0 then (0, 0)
      else if s mod 10 = 0 then normalize_decimal (s div 10) (e + 1)
      else (s, e))"

declare normalize_decimal.simps [simp del]

definition digits_layout :: "jsstring \<Rightarrow> int \<Rightarrow> jsstring" where
  "digits_layout ds n =
     (let k = int (length ds)
      in if k \<le> n \<and> n \<le> 21 then ds @ replicate (nat (n - k)) 0x30
         else if 0 < n \<and> n \<le> 21 then take (nat n) ds @ str ''.'' @ drop (nat n) ds
         else if - 6 < n \<and> n \<le> 0 then str ''0.'' @ replicate (nat (- n)) 0x30 @ ds
         else (if k = 1 then ds else hd ds # str ''.'' @ tl ds)
              @ str ''e'' @ (if n - 1 < 0 then str ''-'' else str ''+'')
              @ decimal (nat \<bar>n - 1\<bar>))"

definition number_to_string :: "int \<Rightarrow> int \<Rightarrow> jsstring" where
  "number_to_string m e =
     (let (s, x) = normalize_decimal (nat \<bar>m\<bar>) e;
          ds = decimal s
      in if s = 0 then str ''0''
         else (if m < 0 then str ''-'' else []) @ digits_layout ds (x + int (length ds)))"

definition make_number :: "bool \<Rightarrow> jsstring \<Rightarrow> jsstring \<Rightarrow> int \<Rightarrow> json" where
  "make_number neg ip fd ex =
     (let (s, x) = normalize_decimal (digits_value (ip @ fd)) (ex - int (length fd))
      in JNumber (if neg then - int s else int s) x)"

definition parse_exponent :: "bool \<Rightarrow> jsstring \<Rightarrow> jsstring \<Rightarrow> jsstring \<Rightarrow> (json \<times> jsstring) option" where
  "parse_exponent neg ip fd s =
     (case s of
        [] \<Rightarrow> Some (make_number neg ip fd 0, s)
      | c # cs \<Rightarrow>
          if c = 0x65 \<or> c = 0x45 then
            (let (eneg, ds) = (case cs of
                                 [] \<Rightarrow> (False, cs)
                               | d # ds \<Rightarrow> if d = 0x2D then (True, ds)
                                           else if d = 0x2B then (False, ds) else (False, cs));
                 ed = takeWhile is_digit ds
             in if ed = [] then None
                else Some (make_number neg ip fd
                             (if eneg then - int (digits_value ed) else int (digits_value ed)),
                           dropWhile is_digit ds))
          else Some (make_number neg ip fd 0, s))"

definition parse_fraction :: "bool \<Rightarrow> jsstring \<Rightarrow> jsstring \<Rightarrow> (json \<times> jsstring) option" where
  "parse_fraction neg ip s =
     (case s of
        [] \<Rightarrow> parse_exponent neg ip [] s
      | c # cs \<Rightarrow>
          if c = 0x2E then
            (let fd = takeWhile is_digit cs
             in if fd = [] then None else parse_exponent neg ip fd (dropWhile is_digit cs))
          else parse_exponent neg ip [] s)"

definition parse_int :: "bool \<Rightarrow> jsstring \<Rightarrow> (json \<times> jsstring) option" where
  "parse_int neg s =
     (case s of
        [] \<Rightarrow> None
      | c # cs \<Rightarrow>
          if c = 0x30 then parse_fraction neg [c] cs
          else if is_digit c then parse_fraction neg (takeWhile is_digit s) (dropWhile is_digit s)
          else None)"

definition parse_number :: "jsstring \<Rightarrow> (json \<times> jsstring) option" where
  "parse_number s =
     (case s of
        [] \<Rightarrow> None
      | c # cs \<Rightarrow> if c = 0x2D then parse_int True cs else parse_int False s)"

subsection \<open>Strings\<close>

text \<open>
  QuoteJSONString escapes the quotation mark, the backslash and the control characters,
  and writes a surrogate that is not part of a pair as \<open>\u\<close> and four lower-case hex
  digits. The string grammar of \<open>JSON.parse\<close> accepts every code unit but the quotation
  mark, the backslash and the controls below U+0020, and the escapes.
\<close>

definition hex_char :: "nat \<Rightarrow> 16 word" where
  "hex_char d = of_nat (if d < 10 then 48 + d else 87 + d)"

definition unicode_escape :: "16 word \<Rightarrow> jsstring" where
  "unicode_escape c =
     (let n = unat c
      in [0x5C, 0x75, hex_char (n div 4096), hex_char (n div 256 mod 16),
          hex_char (n div 16 mod 16), hex_char (n mod 16)])"

definition is_leading_surrogate :: "16 word \<Rightarrow> bool" where
  "is_leading_surrogate c = (0xD800 \<le> c \<and> c \<le> 0xDBFF)"

definition is_trailing_surrogate :: "16 word \<Rightarrow> bool" where
  "is_trailing_surrogate c = (0xDC00 \<le> c \<and> c \<le> 0xDFFF)"

definition quote_unit :: "16 word \<Rightarrow> jsstring" where
  "quote_unit c =
     (if c = 0x08 then [0x5C, 0x62]
      else if c = 0x09 then [0x5C, 0x74]
      else if c = 0x0A then [0x5C, 0x6E]
      else if c = 0x0C then [0x5C, 0x66]
      else if c = 0x0D then [0x5C, 0x72]
      else if c = 0x22 then [0x5C, 0x22]
      else if c = 0x5C then [0x5C, 0x5C]
      else if c < 0x20 then unicode_escape c
      else [c])"

fun quote_units :: "jsstring \<Rightarrow> jsstring" where
  "quote_units [] = []"
| "quote_units [c] =
     (if is_leading_surrogate c \<or> is_trailing_surrogate c then unicode_escape c else quote_unit c)"
| "quote_units (c # d # cs) =
     (if is_leading_surrogate c then
        (if is_trailing_surrogate d then c # d # quote_units cs
         else unicode_escape c @ quote_units (d # cs))
      else if is_trailing_surrogate c then unicode_escape c @ quote_units (d # cs)
      else quote_unit c @ quote_units (d # cs))"

definition QuoteJSONString :: "jsstring \<Rightarrow> jsstring" where
  "QuoteJSONString s = 0x22 # quote_units s @ [0x22]"

definition hex_value :: "16 word \<Rightarrow> nat option" where
  "hex_value c =
     (let n = unat c
      in if 48 \<le> n \<and> n \<le> 57 then Some (n - 48)
         else if 65 \<le> n \<and> n \<le> 70 then Some (n - 55)
         else if 97 \<le> n \<and> n \<le> 102 then Some (n - 87)
         else None)"

definition unescape :: "16 word \<Rightarrow> 16 word option" where
  "unescape c =
     (if c = 0x22 then Some 0x22
      else if c = 0x5C then Some 0x5C
      else if c = 0x2F then Some 0x2F
      else if c = 0x62 then Some 0x08
      else if c = 0x66 then Some 0x0C
      else if c = 0x6E then Some 0x0A
      else if c = 0x72 then Some 0x0D
      else if c = 0x74 then Some 0x09
      else None)"

definition prepend :: "16 word \<Rightarrow> (jsstring \<times> jsstring) option \<Rightarrow> (jsstring \<times> jsstring) option" where
  "prepend c r = (case r of None \<Rightarrow> None | Some (u, rest) \<Rightarrow> Some (c # u, rest))"

fun parse_chars :: "jsstring \<Rightarrow> (jsstring \<times> jsstring) option" where
  "parse_chars [] = None"
| "parse_chars (c # cs) =
     (if c = 0x22 then Some ([], cs)
      else if c = 0x5C then
        (case cs of
           [] \<Rightarrow> None
         | e # es \<Rightarrow>
             if e = 0x75 then
               (case es of
                  h1 # h2 # h3 # h4 # r \<Rightarrow>
                    (case (hex_value h1, hex_value h2, hex_value h3, hex_value h4) of
                       (Some a, Some b, Some c', Some d) \<Rightarrow>
                         prepend (of_nat (((a * 16 + b) * 16 + c') * 16 + d)) (parse_chars r)
                     | _ \<Rightarrow> None)
                | _ \<Rightarrow> None)
             else
               (case unescape e of
                  None \<Rightarrow> None
                | Some x \<Rightarrow> prepend x (parse_chars es)))
      else if c < 0x20 then None
      else prepend c (parse_chars cs))"

subsection \<open>Serialization\<close>

text \<open>
  SerializeJSONProperty with the gap of two spaces: \<open>indent\<close> is the current
  indentation, members and elements are separated by a comma and a line feed.
\<close>

fun join :: "jsstring \<Rightarrow> jsstring list \<Rightarrow> jsstring" where
  "join sep [] = []"
| "join sep [x] = x"
| "join sep (x # y # ys) = x @ sep @ join sep (y # ys)"

definition gap :: jsstring where
  "gap = str ''  ''"

fun SerializeJSONProperty :: "jsstring \<Rightarrow> json \<Rightarrow> jsstring" where
  "SerializeJSONProperty indent JNull = str ''null''"
| "SerializeJSONProperty indent (JBool b) = (if b then str ''true'' else str ''false'')"
| "SerializeJSONProperty indent (JNumber m e) = number_to_string m e"
| "SerializeJSONProperty indent (JString s) = QuoteJSONString s"
| "SerializeJSONProperty indent (JArray vs) =
     (if vs = [] then str ''[]''
      else str ''['' @ [0x0A] @ indent @ gap
           @ join (str '','' @ [0x0A] @ indent @ gap)
               (map (SerializeJSONProperty (indent @ gap)) vs)
           @ [0x0A] @ indent @ str '']'')"
| "SerializeJSONProperty indent (JObject ms) =
     (if ms = [] then str ''{}''
      else str ''{'' @ [0x0A] @ indent @ gap
           @ join (str '','' @ [0x0A] @ indent @ gap)
               (map (\<lambda>(k, v). QuoteJSONString k @ str '':'' @ str '' ''
                       @ SerializeJSONProperty (indent @ gap) v) ms)
           @ [0x0A] @ indent @ str ''}'')"

definition JSON_stringify :: "json \<Rightarrow> jsstring" where
  "JSON_stringify v = SerializeJSONProperty [] v"

subsection \<open>Parsing\<close>

text \<open>
  A recursive descent over the JSON grammar. Each function returns the value read and the
  rest of the input. An object is built with CreateDataProperty: a key that is already
  there keeps its place and takes the new value; a new key that is an array index goes
  among the array indices in ascending order, before all other keys; any other new key
  goes last. The tests \<open>length r < length s\<close> only make the recursion visibly
  terminating: they always succeed, and both functions satisfy the equations without
  them (\<open>parse_elements_eq\<close> and \<open>parse_members_eq\<close> below).
\<close>

definition is_json_ws :: "16 word \<Rightarrow> bool" where
  "is_json_ws c = (c = 0x09 \<or> c = 0x0A \<or> c = 0x0D \<or> c = 0x20)"

definition skip_ws :: "jsstring \<Rightarrow> jsstring" where
  "skip_ws s = dropWhile is_json_ws s"

definition array_index :: "jsstring \<Rightarrow> nat option" where
  "array_index k =
     (if k \<noteq> [] \<and> list_all is_digit k \<and> (hd k = 0x30 \<longrightarrow> length k = 1)
         \<and> digits_value k < 2 ^ 32 - 1
      then Some (digits_value k) else None)"

definition goes_before :: "jsstring \<Rightarrow> jsstring \<Rightarrow> bool" where
  "goes_before k k' =
     (case array_index k of
        None \<Rightarrow> False
      | Some i \<Rightarrow> (case array_index k' of None \<Rightarrow> True | Some j \<Rightarrow> i < j))"

fun insert_property :: "jsstring \<Rightarrow> json \<Rightarrow> (jsstring \<times> json) list \<Rightarrow> (jsstring \<times> json) list" where
  "insert_property k v [] = [(k, v)]"
| "insert_property k v ((k', v') # ms) =
     (if goes_before k k' then (k, v) # (k', v') # ms else (k', v') # insert_property k v ms)"

definition CreateDataProperty :: "jsstring \<Rightarrow> json \<Rightarrow> (jsstring \<times> json) list \<Rightarrow> (jsstring \<times> json) list" where
  "CreateDataProperty k v ms =
     (if k \<in> set (map fst ms) then map (\<lambda>(k', v'). if k' = k then (k', v) else (k', v')) ms
      else insert_property k v ms)"

function parse_value :: "jsstring \<Rightarrow> (json \<times> jsstring) option"
  and parse_elements :: "json list \<Rightarrow> jsstring \<Rightarrow> (json \<times> jsstring) option"
  and parse_members :: "(jsstring \<times> json) list \<Rightarrow> jsstring \<Rightarrow> (json \<times> jsstring) option"
where
  "parse_value [] = None"
| "parse_value (c # cs) =
     (if c = 0x7B then
        (case skip_ws cs of
           [] \<Rightarrow> None
         | d # ds \<Rightarrow> if d = 0x7D then Some (JObject [], ds) else parse_members [] (d # ds))
      else if c = 0x5B then
        (case skip_ws cs of
           [] \<Rightarrow> None
         | d # ds \<Rightarrow> if d = 0x5D then Some (JArray [], ds) else parse_elements [] (d # ds))
      else if c = 0x22 then
        (case parse_chars cs of None \<Rightarrow> None | Some (s, r) \<Rightarrow> Some (JString s, r))
      else if take 4 (c # cs) = str ''null'' then Some (JNull, drop 4 (c # cs))
      else if take 4 (c # cs) = str ''true'' then Some (JBool True, drop 4 (c # cs))
      else if take 5 (c # cs) = str ''false'' then Some (JBool False, drop 5 (c # cs))
      else parse_number (c # cs))"
| "parse_elements acc s =
     (case parse_value s of
        None \<Rightarrow> None
      | Some (v, r) \<Rightarrow>
          if length r < length s then
            (case skip_ws r of
               [] \<Rightarrow> None
             | d # ds \<Rightarrow>
                 if d = 0x2C then parse_elements (acc @ [v]) (skip_ws ds)
                 else if d = 0x5D then Some (JArray (acc @ [v]), ds)
                 else None)
          else None)"
| "parse_members acc s =
     (case s of
        [] \<Rightarrow> None
      | q # s1 \<Rightarrow>
          if q = 0x22 then
            (case parse_chars s1 of
               None \<Rightarrow> None
             | Some (k, r1) \<Rightarrow>
                 (case skip_ws r1 of
                    [] \<Rightarrow> None
                  | colon # r2 \<Rightarrow>
                      if colon = 0x3A \<and> length r2 < length s then
                        (case parse_value (skip_ws r2) of
                           None \<Rightarrow> None
                         | Some (v, r3) \<Rightarrow>
                             if length r3 < length s then
                               (case skip_ws r3 of
                                  [] \<Rightarrow> None
                                | d # ds \<Rightarrow>
                                    if d = 0x2C then
                                      parse_members (CreateDataProperty k v acc) (skip_ws ds)
                                    else if d = 0x7D then
                                      Some (JObject (CreateDataProperty k v acc), ds)
                                    else None)
                             else None)
                      else None))
          else None)"
  by pat_completeness auto

lemma length_skip_ws: "length (skip_ws s) \<le> length s"
  by (simp add: skip_ws_def length_dropWhile_le)

lemma skip_ws_Cons_length: "skip_ws s = d # ds \<Longrightarrow> length ds < length s"
  using length_skip_ws [of s] by simp

termination parse_value
  apply (relation "measure (\<lambda>x. case x of
           Inl s \<Rightarrow> 2 * length s
         | Inr (Inl (acc, s)) \<Rightarrow> 2 * length s + 1
         | Inr (Inr (acc, s)) \<Rightarrow> 2 * length s + 1)")
                      apply (auto dest!: skip_ws_Cons_length)
  subgoal for s a b r using length_skip_ws [of r] by simp
  subgoal for s a b r using length_skip_ws [of r] by simp
  subgoal for s a b r aa ba r' using length_skip_ws [of r'] by simp
  done

definition JSON_parse :: "jsstring \<Rightarrow> json option" where
  "JSON_parse text =
     (case parse_value (skip_ws text) of
        None \<Rightarrow> None
      | Some (v, r) \<Rightarrow> if skip_ws r = [] then Some v else None)"

subsection \<open>Canonical values\<close>

text \<open>
  The values a JavaScript object graph made of JSON data can be: numbers in canonical form,
  objects whose keys are distinct and stand in property order. The other definitions
  name what can follow a number literal and how a serialization starts.
\<close>

definition number_follow :: "jsstring \<Rightarrow> bool" where
  "number_follow rest =
     (case rest of [] \<Rightarrow> True | c # cs \<Rightarrow> \<not> is_digit c \<and> c \<noteq> 0x2E \<and> c \<noteq> 0x65 \<and> c \<noteq> 0x45)"

definition not_digit_start :: "jsstring \<Rightarrow> bool" where
  "not_digit_start t = (case t of [] \<Rightarrow> True | c # cs \<Rightarrow> \<not> is_digit c)"

definition canonical_number :: "int \<Rightarrow> int \<Rightarrow> bool" where
  "canonical_number m e = (if m = 0 then e = 0 else m mod 10 \<noteq> 0)"

definition in_order :: "jsstring \<Rightarrow> jsstring \<Rightarrow> bool" where
  "in_order a b = (a \<noteq> b \<and> \<not> goes_before b a)"

definition property_order :: "jsstring list \<Rightarrow> bool" where
  "property_order ks = sorted_wrt in_order ks"

fun canonical :: "json \<Rightarrow> bool" where
  "canonical (JNumber m e) = canonical_number m e"
| "canonical (JArray vs) = list_all canonical vs"
| "canonical (JObject ms) = (property_order (map fst ms) \<and> list_all (\<lambda>m. canonical (snd m)) ms)"
| "canonical _ = True"

definition value_start :: "16 word \<Rightarrow> bool" where
  "value_start c = (is_digit c \<or> c = 0x2D \<or> c = 0x22 \<or> c = 0x5B \<or> c = 0x7B
                    \<or> c = 0x6E \<or> c = 0x74 \<or> c = 0x66)"

definition member_text :: "jsstring \<Rightarrow> jsstring \<times> json \<Rightarrow> jsstring" where
  "member_text ind' m = QuoteJSONString (fst m) @ 0x3A # 0x20 # SerializeJSONProperty ind' (snd m)"

declare parse_elements.simps [simp del] parse_members.simps [simp del]

section \<open>Requests, notifications and responses\<close>

text \<open>The calls of the backend's REST surface, each with its path parameter and body.\<close>

datatype request =
    GET_sources
  | GET_sources_by_type jsstring
  | POST_sources json
  | PUT_sources jsstring json
  | DELETE_sources jsstring
  | POST_search json
  | POST_seed

text \<open>The texts of the toasts and of the confirmation dialog, one constructor each.\<close>

datatype message =
    Erro_ao_carregar_fontes
  | Digite_algo_para_buscar
  | Selecione_ao_menos_uma_fonte
  | Nenhum_resultado_encontrado
  | Erro_ao_realizar_busca
  | Configuracao_JSON_invalida
  | Fonte_atualizada_com_sucesso
  | Fonte_criada_com_sucesso
  | Erro_ao_salvar_fonte
  | Tem_certeza_que_deseja_excluir_esta_fonte
  | Fonte_excluida_com_sucesso
  | Erro_ao_excluir_fonte
  | Erro_ao_atualizar_fonte

text \<open>
  What a handler does besides updating the component state: an axios call, a toast,
  a line on the console, the \<open>window.confirm\<close> dialog.
\<close>

datatype effect =
    Http request
  | Toast_error message
  | Toast_success message
  | Toast_info message
  | Console_error string
  | Window_confirm message

text \<open>An awaited axios call resolves with \<open>response.data\<close> or rejects.\<close>

datatype 'a response = Resolved 'a | Rejected

fun requests :: "effect list \<Rightarrow> request list" where
  "requests [] = []"
| "requests (Http r # es) = r # requests es"
| "requests (_ # es) = requests es"

fun toasts :: "effect list \<Rightarrow> effect list" where
  "toasts [] = []"
| "toasts (Http r # es) = toasts es"
| "toasts (Console_error l # es) = toasts es"
| "toasts (Window_confirm m # es) = toasts es"
| "toasts (e # es) = e # toasts es"

fun is_DELETE :: "request \<Rightarrow> bool" where
  "is_DELETE (DELETE_sources i) = True"
| "is_DELETE _ = False"

section \<open>The data model\<close>

text \<open>
  A SourceConfig as the backend returns it (the fields \<open>id\<close>, \<open>name\<close>, \<open>type\<close>,
  \<open>url_base\<close>, \<open>search_method\<close>, \<open>config\<close>, \<open>enabled\<close>), and a SearchResultGroup,
  of whose items the view only counts and renders. The responses of the backend are taken
  to have these shapes.
\<close>

record source =
  s_id :: jsstring
  s_name :: jsstring
  s_type :: jsstring
  s_url_base :: jsstring
  s_search_method :: jsstring
  s_config :: json
  s_enabled :: bool

record result_group =
  source_name :: jsstring
  error :: "jsstring option"
  items :: "json list"

section \<open>Home.jsx\<close>

text \<open>
  The state of the \<open>Home\<close> component. Every handler is a function from the state to the
  new state and the effects it had, in order. An async handler is two functions: \<open>_call\<close>
  runs it up to its \<open>await\<close> (the request is its last effect), \<open>_settle\<close> runs the rest
  once the request has resolved or rejected.
\<close>

record home_state =
  query :: jsstring
  contentType :: jsstring
  sources :: "source list"
  selectedSources :: "jsstring list"
  searching :: bool
  results :: "result_group list"
  hasSearched :: bool

definition home_init :: home_state where
  "home_init = \<lparr>query = [], contentType = str ''game'', sources = [], selectedSources = [],
     searching = False, results = [], hasSearched = False\<rparr>"

definition loadSources_call :: "home_state \<Rightarrow> home_state \<times> effect list" where
  "loadSources_call st = (st, [Http (GET_sources_by_type (contentType st))])"

fun loadSources_settle :: "source list response \<Rightarrow> home_state \<Rightarrow> home_state \<times> effect list" where
  "loadSources_settle (Resolved data) st =
     (st\<lparr>sources := data, selectedSources := map s_id data\<rparr>, [])"
| "loadSources_settle Rejected st =
     (st, [Console_error ''Error loading sources:'', Toast_error Erro_ao_carregar_fontes])"

definition toggleSource :: "jsstring \<Rightarrow> jsstring list \<Rightarrow> jsstring list" where
  "toggleSource sourceId prev =
     (if sourceId \<in> set prev then filter (\<lambda>i. i \<noteq> sourceId) prev else prev @ [sourceId])"

definition search_body :: "home_state \<Rightarrow> json" where
  "search_body st = JObject
     [(str ''query'', JString (js_trim (query st))),
      (str ''type'', JString (contentType st)),
      (str ''source_ids'', JArray (map JString (selectedSources st)))]"

definition handleSearch_call :: "home_state \<Rightarrow> home_state \<times> effect list" where
  "handleSearch_call st =
     (if js_trim (query st) = [] then (st, [Toast_error Digite_algo_para_buscar])
      else if length (selectedSources st) = 0 then (st, [Toast_error Selecione_ao_menos_uma_fonte])
      else (st\<lparr>searching := True, hasSearched := True\<rparr>, [Http (POST_search (search_body st))]))"

fun handleSearch_settle :: "result_group list response \<Rightarrow> home_state \<Rightarrow> home_state \<times> effect list" where
  "handleSearch_settle (Resolved data) st =
     (st\<lparr>results := data, searching := False\<rparr>,
      if list_all (\<lambda>r. length (items r) = 0) data then [Toast_info Nenhum_resultado_encontrado] else [])"
| "handleSearch_settle Rejected st =
     (st\<lparr>searching := False\<rparr>,
      [Console_error ''Search error:'', Toast_error Erro_ao_realizar_busca])"

text \<open>The whole of \<open>handleSearch\<close>, the request answered by \<open>resp\<close> when it is made.\<close>

definition handleSearch :: "result_group list response \<Rightarrow> home_state \<Rightarrow> home_state \<times> effect list" where
  "handleSearch resp st =
     (let (st1, es1) = handleSearch_call st in
      if requests es1 = [] then (st1, es1)
      else let (st2, es2) = handleSearch_settle resp st1 in (st2, es1 @ es2))"

definition handleKeyPress :: "jsstring \<Rightarrow> home_state \<Rightarrow> home_state \<times> effect list" where
  "handleKeyPress key st = (if key = str ''Enter'' then handleSearch_call st else (st, []))"

text \<open>
  The events of the view. The effect hook on \<open>[contentType]\<close> calls \<open>loadSources\<close>
  when the component is mounted and whenever the content type select has changed the
  value through \<open>setContentType\<close>. The search button carries \<open>disabled={searching}\<close>,
  so its \<open>onClick\<close> only fires while \<open>searching\<close> is false; the input's
  \<open>onKeyPress\<close> has no such attribute. \<open>Source_click\<close> is one call of
  \<open>toggleSource\<close>. The two response events are the settling of an outstanding
  \<open>GET /sources/by-type\<close> and of an outstanding \<open>POST /search\<close>.
\<close>

datatype home_event =
    Mount
  | Input_change jsstring
  | Input_key_press jsstring
  | Search_button_click
  | Content_type_change jsstring
  | Source_click jsstring
  | Sources_response "source list response"
  | Search_response "result_group list response"

fun home_dispatch :: "home_event \<Rightarrow> home_state \<Rightarrow> home_state \<times> effect list" where
  "home_dispatch Mount st = loadSources_call st"
| "home_dispatch (Input_change v) st = (st\<lparr>query := v\<rparr>, [])"
| "home_dispatch (Input_key_press key) st = handleKeyPress key st"
| "home_dispatch Search_button_click st = (if searching st then (st, []) else handleSearch_call st)"
| "home_dispatch (Content_type_change v) st =
     (if v = contentType st then (st, []) else loadSources_call (st\<lparr>contentType := v\<rparr>))"
| "home_dispatch (Source_click sourceId) st =
     (st\<lparr>selectedSources := toggleSource sourceId (selectedSources st)\<rparr>, [])"
| "home_dispatch (Sources_response resp) st = loadSources_settle resp st"
| "home_dispatch (Search_response resp) st = handleSearch_settle resp st"

fun home_run :: "home_event list \<Rightarrow> home_state \<Rightarrow> home_state \<times> effect list" where
  "home_run [] st = (st, [])"
| "home_run (ev # evs) st =
     (let (st1, es1) = home_dispatch ev st; (st2, es2) = home_run evs st1 in (st2, es1 @ es2))"

section \<open>Admin.jsx\<close>

text \<open>
  The state of the \<open>Admin\<close> component: \<open>formData\<close> holds the fields of the dialog, its
  \<open>config\<close> as the text of the textarea. \<open>loadSources\<close> of this component is
  \<open>admin_loadSources\<close> here, \<open>sources\<close> is \<open>admin_sources\<close>. A handler named without
  \<open>_call\<close> or \<open>_settle\<close> is the whole handler, each request it makes answered by the
  response given.
\<close>

record form_data =
  f_name :: jsstring
  f_type :: jsstring
  f_url_base :: jsstring
  f_search_method :: jsstring
  f_config :: jsstring
  f_enabled :: bool

record admin_state =
  admin_sources :: "source list"
  loading :: bool
  dialogOpen :: bool
  editingSource :: "source option"
  formData :: form_data

definition empty_form :: form_data where
  "empty_form = \<lparr>f_name = [], f_type = str ''game'', f_url_base = [],
     f_search_method = str ''scraping'', f_config = str ''{}'', f_enabled = True\<rparr>"

definition admin_init :: admin_state where
  "admin_init = \<lparr>admin_sources = [], loading = True, dialogOpen = False,
     editingSource = None, formData = empty_form\<rparr>"

definition seedDatabase_call :: "admin_state \<Rightarrow> admin_state \<times> effect list" where
  "seedDatabase_call st = (st, [Http POST_seed])"

fun seedDatabase_settle :: "unit response \<Rightarrow> admin_state \<Rightarrow> admin_state \<times> effect list" where
  "seedDatabase_settle (Resolved u) st = (st, [])"
| "seedDatabase_settle Rejected st = (st, [Console_error ''Error seeding:''])"

definition admin_loadSources_call :: "admin_state \<Rightarrow> admin_state \<times> effect list" where
  "admin_loadSources_call st = (st, [Http GET_sources])"

fun admin_loadSources_settle :: "source list response \<Rightarrow> admin_state \<Rightarrow> admin_state \<times> effect list" where
  "admin_loadSources_settle (Resolved data) st = (st\<lparr>admin_sources := data, loading := False\<rparr>, [])"
| "admin_loadSources_settle Rejected st =
     (st\<lparr>loading := False\<rparr>,
      [Console_error ''Error loading sources:'', Toast_error Erro_ao_carregar_fontes])"

text \<open>The effect hook with no dependencies: \<open>loadSources(); seedDatabase();\<close> on mount.\<close>

definition admin_mount :: "admin_state \<Rightarrow> admin_state \<times> effect list" where
  "admin_mount st =
     (let (st1, es1) = admin_loadSources_call st; (st2, es2) = seedDatabase_call st1
      in (st2, es1 @ es2))"

text \<open>
  The admin view from its mount until both requests have settled, the seed call answered
  by \<open>seed\<close> and the list call by \<open>list\<close>, in either order of arrival.
\<close>

definition admin_load :: "bool \<Rightarrow> unit response \<Rightarrow> source list response \<Rightarrow> admin_state \<times> effect list" where
  "admin_load seed_first seed list =
     (let (st0, es0) = admin_mount admin_init in
      if seed_first then
        let (st1, es1) = seedDatabase_settle seed st0;
            (st2, es2) = admin_loadSources_settle list st1
        in (st2, es0 @ es1 @ es2)
      else
        let (st1, es1) = admin_loadSources_settle list st0;
            (st2, es2) = seedDatabase_settle seed st1
        in (st2, es0 @ es1 @ es2))"


definition handleDelete_call :: "bool \<Rightarrow> jsstring \<Rightarrow> admin_state \<Rightarrow> admin_state \<times> effect list" where
  "handleDelete_call confirmed ident st =
     (if \<not> confirmed then (st, [Window_confirm Tem_certeza_que_deseja_excluir_esta_fonte])
      else (st, [Window_confirm Tem_certeza_que_deseja_excluir_esta_fonte,
                 Http (DELETE_sources ident)]))"

fun handleDelete_settle :: "unit response \<Rightarrow> admin_state \<Rightarrow> admin_state \<times> effect list" where
  "handleDelete_settle (Resolved u) st =
     (let (st1, es1) = admin_loadSources_call st
      in (st1, Toast_success Fonte_excluida_com_sucesso # es1))"
| "handleDelete_settle Rejected st =
     (st, [Console_error ''Error deleting source:'', Toast_error Erro_ao_excluir_fonte])"

definition handleDelete :: "bool \<Rightarrow> unit response \<Rightarrow> jsstring \<Rightarrow> admin_state \<Rightarrow> admin_state \<times> effect list" where
  "handleDelete confirmed resp ident st =
     (let (st1, es1) = handleDelete_call confirmed ident st in
      if requests es1 = [] then (st1, es1)
      else let (st2, es2) = handleDelete_settle resp st1 in (st2, es1 @ es2))"

definition handleToggleEnabled_call :: "source \<Rightarrow> admin_state \<Rightarrow> admin_state \<times> effect list" where
  "handleToggleEnabled_call src st =
     (st, [Http (PUT_sources (s_id src) (JObject [(str ''enabled'', JBool (\<not> s_enabled src))]))])"

fun handleToggleEnabled_settle :: "unit response \<Rightarrow> admin_state \<Rightarrow> admin_state \<times> effect list" where
  "handleToggleEnabled_settle (Resolved u) st = admin_loadSources_call st"
| "handleToggleEnabled_settle Rejected st =
     (st, [Console_error ''Error toggling source:'', Toast_error Erro_ao_atualizar_fonte])"

text \<open>
  \<open>handleToggleEnabled\<close> with its update answered by \<open>put\<close> and, when \<open>loadSources\<close>
  is then called, the list request answered by \<open>list\<close>.
\<close>

definition handleToggleEnabled ::
  "unit response \<Rightarrow> source list response \<Rightarrow> source \<Rightarrow> admin_state \<Rightarrow> admin_state \<times> effect list" where
  "handleToggleEnabled put list src st =
     (let (st1, es1) = handleToggleEnabled_call src st;
          (st2, es2) = handleToggleEnabled_settle put st1 in
      if requests es2 = [] then (st2, es1 @ es2)
      else let (st3, es3) = admin_loadSources_settle list st2 in (st3, es1 @ es2 @ es3))"

definition handleEdit :: "source \<Rightarrow> admin_state \<Rightarrow> admin_state" where
  "handleEdit src st = st\<lparr>editingSource := Some src,
     formData := \<lparr>f_name = s_name src, f_type = s_type src, f_url_base = s_url_base src,
       f_search_method = s_search_method src, f_config = JSON_stringify (s_config src),
       f_enabled = s_enabled src\<rparr>,
     dialogOpen := True\<rparr>"

text \<open>The request body of \<open>handleSubmit\<close>: the form with \<open>config\<close> replaced.\<close>

definition submit_data :: "form_data \<Rightarrow> json \<Rightarrow> json" where
  "submit_data fd configObj = JObject
     [(str ''name'', JString (f_name fd)),
      (str ''type'', JString (f_type fd)),
      (str ''url_base'', JString (f_url_base fd)),
      (str ''search_method'', JString (f_search_method fd)),
      (str ''config'', configObj),
      (str ''enabled'', JBool (f_enabled fd))]"

definition handleSubmit_call :: "admin_state \<Rightarrow> admin_state \<times> effect list" where
  "handleSubmit_call st =
     (case JSON_parse (f_config (formData st)) of
        None \<Rightarrow> (st, [Toast_error Configuracao_JSON_invalida])
      | Some configObj \<Rightarrow>
          (case editingSource st of
             Some src \<Rightarrow>
               (st, [Http (PUT_sources (s_id src) (submit_data (formData st) configObj))])
           | None \<Rightarrow> (st, [Http (POST_sources (submit_data (formData st) configObj))])))"



fun object_keys :: "json \<Rightarrow> jsstring list" where
  "object_keys (JObject ms) = map fst ms"
| "object_keys _ = []"

section \<open>Parsing a serialization gives the value back\<close>

subsection \<open>Numbers\<close>

lemma unat_digit_char: "d < 10 \<Longrightarrow> unat (digit_char d) = 48 + d"
  unfolding digit_char_def by (subst unat_of_nat) simp

lemma is_digit_digit_char: "d < 10 \<Longrightarrow> is_digit (digit_char d)"
  unfolding is_digit_def by (simp add: word_le_nat_alt unat_digit_char)

lemma digit_value_digit_char: "d < 10 \<Longrightarrow> digit_value (digit_char d) = d"
  unfolding digit_value_def by (simp add: unat_digit_char)

lemma digit_char_eq_zero: "d < 10 \<Longrightarrow> digit_char d = 0x30 \<longleftrightarrow> d = 0"
  using digit_value_digit_char [of d] digit_value_digit_char [of 0]
  by (auto simp: digit_char_def)

lemma decimal_digits: "list_all is_digit (decimal n)"
  by (induction n rule: decimal.induct)
     (subst decimal.simps, simp add: is_digit_digit_char)

lemma decimal_nonempty: "decimal n \<noteq> []"
  by (subst decimal.simps) simp

lemma digits_value_snoc: "digits_value (ds @ [c]) = 10 * digits_value ds + digit_value c"
  by (simp add: digits_value_def)

lemma digits_value_decimal: "digits_value (decimal n) = n"
proof (induction n rule: decimal.induct)
  case (1 n)
  show ?case
  proof (cases "n < 10")
    case True
    then show ?thesis
      by (subst decimal.simps) (simp add: digits_value_def digit_value_digit_char)
  next
    case False
    then have "digits_value (decimal n) = 10 * (n div 10) + n mod 10"
      using 1 by (subst decimal.simps) (simp add: digits_value_snoc digit_value_digit_char)
    then show ?thesis by simp
  qed
qed

lemma hd_decimal: "0 < n \<Longrightarrow> hd (decimal n) \<noteq> 0x30"
proof (induction n rule: decimal.induct)
  case (1 n)
  show ?case
  proof (cases "n < 10")
    case True
    then show ?thesis
      using 1(2) by (subst decimal.simps) (simp add: digit_char_eq_zero)
  next
    case False
    then have "hd (decimal n) = hd (decimal (n div 10))"
      by (subst decimal.simps) (simp add: decimal_nonempty)
    moreover have "0 < n div 10" using False by simp
    ultimately show ?thesis using 1(1) False by simp
  qed
qed

lemma digits_value_append:
  "digits_value (xs @ ys) = digits_value xs * 10 ^ length ys + digits_value ys"
proof (induction ys rule: rev_induct)
  case Nil
  then show ?case by (simp add: digits_value_def)
next
  case (snoc y ys)
  have "digits_value (xs @ ys @ [y]) = 10 * digits_value (xs @ ys) + digit_value y"
    using digits_value_snoc [of "xs @ ys" y] by simp
  then show ?case
    by (simp add: snoc digits_value_snoc algebra_simps)
qed

lemma digits_value_zeros: "digits_value (replicate z 0x30) = 0"
  by (induction z) (simp_all add: digits_value_def digit_value_def)

lemma normalize_decimal_shift:
  "0 < s \<Longrightarrow> s mod 10 \<noteq> 0 \<Longrightarrow> normalize_decimal (s * 10 ^ z) e = (s, e + int z)"
proof (induction z arbitrary: e)
  case 0
  then show ?case by (subst normalize_decimal.simps) simp
next
  case (Suc z)
  have "normalize_decimal (s * 10 ^ Suc z) e = normalize_decimal (s * 10 ^ z) (e + 1)"
    using Suc.prems by (subst normalize_decimal.simps) simp
  then show ?case using Suc by simp
qed

lemma takeWhile_digits:
  "list_all is_digit ds \<Longrightarrow> (case rest of [] \<Rightarrow> True | c # cs \<Rightarrow> \<not> is_digit c) \<Longrightarrow>
     takeWhile is_digit (ds @ rest) = ds \<and> dropWhile is_digit (ds @ rest) = rest"
  by (induction ds) (auto split: list.splits)

lemma number_follow_not_digit:
  "number_follow rest \<Longrightarrow> (case rest of [] \<Rightarrow> True | c # cs \<Rightarrow> \<not> is_digit c)"
  by (auto simp: number_follow_def split: list.splits)

lemma parse_exponent_none:
  "number_follow rest \<Longrightarrow> parse_exponent neg ip fd rest = Some (make_number neg ip fd 0, rest)"
  by (auto simp: parse_exponent_def number_follow_def split: list.splits)

lemma parse_exponent_minus:
  assumes "number_follow rest"
  shows "parse_exponent neg ip fd (0x65 # 0x2D # decimal n @ rest)
           = Some (make_number neg ip fd (- int n), rest)"
proof -
  have tw: "takeWhile is_digit (decimal n @ rest) = decimal n"
    "dropWhile is_digit (decimal n @ rest) = rest"
    using takeWhile_digits [OF decimal_digits number_follow_not_digit [OF assms]] by auto
  show ?thesis
    by (simp add: parse_exponent_def tw decimal_nonempty digits_value_decimal)
qed

lemma parse_exponent_plus:
  assumes "number_follow rest"
  shows "parse_exponent neg ip fd (0x65 # 0x2B # decimal n @ rest)
           = Some (make_number neg ip fd (int n), rest)"
proof -
  have tw: "takeWhile is_digit (decimal n @ rest) = decimal n"
    "dropWhile is_digit (decimal n @ rest) = rest"
    using takeWhile_digits [OF decimal_digits number_follow_not_digit [OF assms]] by auto
  show ?thesis
    by (simp add: parse_exponent_def tw decimal_nonempty digits_value_decimal)
qed

lemma parse_exponent_some:
  assumes "number_follow rest"
  shows "parse_exponent neg ip fd
           (0x65 # (if x < 0 then [0x2D] else [0x2B]) @ decimal (nat \<bar>x\<bar>) @ rest)
           = Some (make_number neg ip fd x, rest)"
proof (cases "x < 0")
  case True
  then show ?thesis
    using parse_exponent_minus [OF assms, of neg ip fd "nat \<bar>x\<bar>"] by simp
next
  case False
  then show ?thesis
    using parse_exponent_plus [OF assms, of neg ip fd "nat \<bar>x\<bar>"] by simp
qed

lemma make_number_normal:
  assumes "0 < s" "s mod 10 \<noteq> 0" "digits_value (ip @ fd) = s * 10 ^ z"
    and "ex - int (length fd) + int z = x"
  shows "make_number neg ip fd ex = JNumber (if neg then - int s else int s) x"
  using assms normalize_decimal_shift [of s z "ex - int (length fd)"]
  by (simp add: make_number_def)

lemma takeWhile_digits':
  "list_all is_digit ds \<Longrightarrow> not_digit_start t \<Longrightarrow>
     takeWhile is_digit (ds @ t) = ds \<and> dropWhile is_digit (ds @ t) = t"
  using takeWhile_digits [of ds t] by (simp add: not_digit_start_def)

lemma parse_fraction_none:
  "number_follow rest \<Longrightarrow> parse_fraction neg ip rest = Some (make_number neg ip [] 0, rest)"
  using parse_exponent_none [of rest neg ip "[]"]
  by (auto simp: parse_fraction_def number_follow_def split: list.splits)

lemma parse_fraction_dot:
  "list_all is_digit fd \<Longrightarrow> fd \<noteq> [] \<Longrightarrow> not_digit_start t \<Longrightarrow>
     parse_fraction neg ip (0x2E # fd @ t) = parse_exponent neg ip fd t"
  using takeWhile_digits' [of fd t] by (simp add: parse_fraction_def)

lemma parse_fraction_exp:
  "parse_fraction neg ip (0x65 # t) = parse_exponent neg ip [] (0x65 # t)"
  by (simp add: parse_fraction_def)

lemma parse_int_digits:
  assumes "list_all is_digit ip" "ip \<noteq> []" "hd ip \<noteq> 0x30" "not_digit_start t"
  shows "parse_int neg (ip @ t) = parse_fraction neg ip t"
proof -
  obtain d ds where ip: "ip = d # ds"
    using assms(2) by (cases ip) auto
  have "takeWhile is_digit (d # ds @ t) = ip" "dropWhile is_digit (d # ds @ t) = t"
    using takeWhile_digits' [OF assms(1,4)] ip by auto
  then show ?thesis
    using assms(1,3) ip by (simp add: parse_int_def)
qed

lemma parse_int_zero: "parse_int neg (0x30 # t) = parse_fraction neg [0x30] t"
  by (simp add: parse_int_def)

lemma not_digit_start_simps:
  "not_digit_start (0x2E # t)" "not_digit_start (0x65 # t)"
  "number_follow rest \<Longrightarrow> not_digit_start rest"
  by (auto simp: not_digit_start_def is_digit_def number_follow_def split: list.splits)

lemma digits_replicate: "list_all is_digit (replicate z 0x30)"
  by (simp add: list_all_iff is_digit_def)

text \<open>The four layouts of Number::toString.\<close>

lemma parse_int_integer_layout:
  assumes "0 < s" "s mod 10 \<noteq> 0" "number_follow rest"
  shows "parse_int neg ((decimal s @ replicate z 0x30) @ rest)
           = Some (JNumber (if neg then - int s else int s) (int z), rest)"
proof -
  let ?ip = "decimal s @ replicate z 0x30"
  have "parse_int neg (?ip @ rest) = parse_fraction neg ?ip rest"
    using hd_decimal [OF assms(1)] decimal_nonempty [of s]
    by (intro parse_int_digits)
       (simp_all add: decimal_digits digits_replicate not_digit_start_simps assms)
  also have "\<dots> = Some (make_number neg ?ip [] 0, rest)"
    by (rule parse_fraction_none [OF assms(3)])
  also have "make_number neg ?ip [] 0 = JNumber (if neg then - int s else int s) (int z)"
    by (rule make_number_normal [OF assms(1,2), where z = z])
       (simp_all add: digits_value_append digits_value_decimal digits_value_zeros)
  finally show ?thesis .
qed

lemma parse_int_point_layout:
  assumes "0 < s" "s mod 10 \<noteq> 0" "number_follow rest" "0 < n" "n < length (decimal s)"
  shows "parse_int neg ((take n (decimal s) @ 0x2E # drop n (decimal s)) @ rest)
           = Some (JNumber (if neg then - int s else int s) (int n - int (length (decimal s))), rest)"
proof -
  let ?ip = "take n (decimal s)" and ?fd = "drop n (decimal s)"
  have dig: "list_all is_digit ?ip" "list_all is_digit ?fd"
    using decimal_digits [of s] by (auto simp: list_all_iff dest: in_set_takeD in_set_dropD)
  have hd: "?ip \<noteq> []" "hd ?ip \<noteq> 0x30" "?fd \<noteq> []"
    using hd_decimal [OF assms(1)] assms(4,5) by (auto simp: hd_take)
  have "parse_int neg (?ip @ 0x2E # ?fd @ rest) = parse_fraction neg ?ip (0x2E # ?fd @ rest)"
    by (rule parse_int_digits [OF dig(1) hd(1,2)]) (rule not_digit_start_simps)
  also have "\<dots> = parse_exponent neg ?ip ?fd rest"
    by (rule parse_fraction_dot [OF dig(2) hd(3)]) (rule not_digit_start_simps, rule assms)
  also have "\<dots> = Some (make_number neg ?ip ?fd 0, rest)"
    by (rule parse_exponent_none [OF assms(3)])
  also have "make_number neg ?ip ?fd 0
      = JNumber (if neg then - int s else int s) (int n - int (length (decimal s)))"
    using assms(5)
    by (intro make_number_normal [OF assms(1,2), where z = 0])
       (simp_all add: digits_value_decimal)
  finally show ?thesis by simp
qed

lemma parse_int_small_layout:
  assumes "0 < s" "s mod 10 \<noteq> 0" "number_follow rest"
  shows "parse_int neg ((0x30 # 0x2E # replicate z 0x30 @ decimal s) @ rest)
           = Some (JNumber (if neg then - int s else int s) (- int z - int (length (decimal s))), rest)"
proof -
  let ?fd = "replicate z 0x30 @ decimal s"
  have "parse_int neg (0x30 # 0x2E # ?fd @ rest) = parse_fraction neg [0x30] (0x2E # ?fd @ rest)"
    by (rule parse_int_zero)
  also have "\<dots> = parse_exponent neg [0x30] ?fd rest"
    by (rule parse_fraction_dot)
       (simp_all add: decimal_digits digits_replicate decimal_nonempty not_digit_start_simps assms)
  also have "\<dots> = Some (make_number neg [0x30] ?fd 0, rest)"
    by (rule parse_exponent_none [OF assms(3)])
  also have "make_number neg [0x30] ?fd 0
      = JNumber (if neg then - int s else int s) (- int z - int (length (decimal s)))"
  proof (rule make_number_normal [OF assms(1,2), where z = 0])
    have "digits_value ([0x30] @ ?fd) = digits_value (replicate (Suc z) 0x30 @ decimal s)"
      by simp
    also have "\<dots> = s"
      unfolding digits_value_append digits_value_zeros by (simp add: digits_value_decimal)
    finally show "digits_value ([0x30] @ ?fd) = s * 10 ^ 0" by simp
  qed simp
  finally show ?thesis by simp
qed

lemma parse_int_exponent_layout:
  assumes "0 < s" "s mod 10 \<noteq> 0" "number_follow rest"
  shows "parse_int neg (((if length (decimal s) = 1 then decimal s
                          else hd (decimal s) # 0x2E # tl (decimal s))
                         @ 0x65 # (if x < 0 then [0x2D] else [0x2B]) @ decimal (nat \<bar>x\<bar>)) @ rest)
           = Some (JNumber (if neg then - int s else int s) (x + 1 - int (length (decimal s))), rest)"
proof -
  let ?ex = "0x65 # (if x < 0 then [0x2D] else [0x2B]) @ decimal (nat \<bar>x\<bar>) @ rest"
  obtain d ds where dec: "decimal s = d # ds"
    using decimal_nonempty [of s] by (cases "decimal s") auto
  have d: "is_digit d" "d \<noteq> 0x30" "list_all is_digit ds"
    using decimal_digits [of s] hd_decimal [OF assms(1)] dec by auto
  have val: "digits_value ([d] @ ds) = s * 10 ^ 0"
    using digits_value_decimal [of s] dec by simp
  show ?thesis
  proof (cases "ds = []")
    case True
    have "parse_int neg ([d] @ ?ex) = parse_fraction neg [d] ?ex"
      using d by (intro parse_int_digits) (simp_all add: not_digit_start_simps)
    also have "\<dots> = parse_exponent neg [d] [] ?ex"
      by (rule parse_fraction_exp)
    also have "\<dots> = Some (make_number neg [d] [] x, rest)"
      by (rule parse_exponent_some [OF assms(3)])
    also have "make_number neg [d] [] x = JNumber (if neg then - int s else int s) x"
      using val True by (intro make_number_normal [OF assms(1,2), where z = 0]) simp_all
    finally show ?thesis using dec True by simp
  next
    case False
    have "parse_int neg ([d] @ 0x2E # ds @ ?ex) = parse_fraction neg [d] (0x2E # ds @ ?ex)"
      using d by (intro parse_int_digits) (simp_all add: not_digit_start_simps)
    also have "\<dots> = parse_exponent neg [d] ds ?ex"
      using d False by (intro parse_fraction_dot) (simp_all add: not_digit_start_simps)
    also have "\<dots> = Some (make_number neg [d] ds x, rest)"
      by (rule parse_exponent_some [OF assms(3)])
    also have "make_number neg [d] ds x
        = JNumber (if neg then - int s else int s) (x - int (length ds))"
      using val by (intro make_number_normal [OF assms(1,2), where z = 0]) simp_all
    finally show ?thesis using dec False by simp
  qed
qed

lemma parse_number_minus: "parse_number (0x2D # t) = parse_int True t"
  by (simp add: parse_number_def)

lemma parse_number_plain: "parse_int False t = Some r \<Longrightarrow> parse_number t = Some r"
  by (auto simp: parse_number_def parse_int_def is_digit_def split: list.splits if_splits)

lemma parse_int_layout:
  assumes "0 < s" "s mod 10 \<noteq> 0" "number_follow rest"
  shows "parse_int neg (digits_layout (decimal s) (e + int (length (decimal s))) @ rest)
         = Some (JNumber (if neg then - int s else int s) e, rest)"
proof -
  define k where "k = int (length (decimal s))"
  define n where "n = e + k"
  consider (integer) "k \<le> n" "n \<le> 21"
    | (point) "\<not> k \<le> n" "0 < n" "n \<le> 21"
    | (small) "\<not> k \<le> n" "- 6 < n" "n \<le> 0"
    | (exponent) "\<not> (k \<le> n \<and> n \<le> 21)" "\<not> (0 < n \<and> n \<le> 21)" "\<not> (- 6 < n \<and> n \<le> 0)"
    by linarith
  then have "parse_int neg (digits_layout (decimal s) n @ rest)
         = Some (JNumber (if neg then - int s else int s) e, rest)"
  proof cases
    case integer
    then have eq: "digits_layout (decimal s) n = decimal s @ replicate (nat (n - k)) 0x30"
      by (simp add: digits_layout_def k_def)
    have "int (nat (n - k)) = e"
      using integer by (simp add: n_def)
    then show ?thesis
      unfolding eq using parse_int_integer_layout [OF assms, of neg "nat (n - k)"] by simp
  next
    case point
    then have eq: "digits_layout (decimal s) n
        = take (nat n) (decimal s) @ 0x2E # drop (nat n) (decimal s)"
      by (simp add: digits_layout_def k_def str_def)
    have "0 < nat n" "nat n < length (decimal s)" "int (nat n) - int (length (decimal s)) = e"
      using point by (auto simp: k_def n_def)
    then show ?thesis
      unfolding eq using parse_int_point_layout [OF assms, of "nat n" neg] by simp
  next
    case small
    then have eq: "digits_layout (decimal s) n
        = 0x30 # 0x2E # replicate (nat (- n)) 0x30 @ decimal s"
      by (simp add: digits_layout_def k_def str_def)
    have "- int (nat (- n)) - int (length (decimal s)) = e"
      using small by (auto simp: k_def n_def)
    then show ?thesis
      unfolding eq using parse_int_small_layout [OF assms, of neg "nat (- n)"] by simp
  next
    case exponent
    have k1: "length (decimal s) = 1 \<longleftrightarrow> k = 1"
      by (auto simp: k_def)
    have eq: "digits_layout (decimal s) n
        = (if length (decimal s) = 1 then decimal s
           else hd (decimal s) # 0x2E # tl (decimal s))
          @ 0x65 # (if n - 1 < 0 then [0x2D] else [0x2B]) @ decimal (nat \<bar>n - 1\<bar>)"
      using exponent unfolding k1 by (auto simp: digits_layout_def k_def [symmetric] str_def)
    have "n - 1 + 1 - int (length (decimal s)) = e"
      by (simp add: n_def k_def)
    then show ?thesis
      unfolding eq using parse_int_exponent_layout [OF assms, of neg "n - 1"] by simp
  qed
  then show ?thesis
    by (simp add: n_def k_def)
qed

lemma parse_number_to_string:
  assumes "canonical_number m e" "number_follow rest"
  shows "parse_number (number_to_string m e @ rest) = Some (JNumber m e, rest)"
proof (cases "m = 0")
  case True
  then have e: "e = 0"
    using assms(1) by (simp add: canonical_number_def)
  have "normalize_decimal 0 0 = (0, 0)"
    by (subst normalize_decimal.simps) simp
  then have zero_text: "number_to_string m e = [0x30]"
    using True e by (simp add: number_to_string_def str_def)
  have "make_number False [0x30] [] 0 = JNumber 0 0"
    by (subst make_number_def, subst normalize_decimal.simps)
       (simp add: digits_value_def digit_value_def)
  then have "parse_int False (0x30 # rest) = Some (JNumber 0 0, rest)"
    using parse_fraction_none [OF assms(2), of False "[0x30]"] by (simp add: parse_int_zero)
  then show ?thesis
    using True e zero_text by (simp add: parse_number_plain)
next
  case False
  define s where "s = nat \<bar>m\<bar>"
  have "\<not> 10 dvd m"
    using False assms(1) by (simp add: canonical_number_def dvd_eq_mod_eq_0)
  then have "\<not> 10 dvd s"
    by (simp add: s_def dvd_nat_abs_iff)
  then have s: "0 < s" "s mod 10 \<noteq> 0"
    using False by (simp_all add: s_def dvd_eq_mod_eq_0)
  have norm: "normalize_decimal s e = (s, e)"
    using normalize_decimal_shift [OF s, of 0 e] by simp
  have nts: "number_to_string m e
      = (if m < 0 then [0x2D] else []) @ digits_layout (decimal s) (e + int (length (decimal s)))"
    unfolding number_to_string_def s_def [symmetric] norm using s(1) by (simp add: str_def Let_def)
  show ?thesis
  proof (cases "m < 0")
    case True
    then have "- int s = m" by (simp add: s_def)
    then show ?thesis
      using True parse_int_layout [OF s assms(2), of True e]
      by (simp add: nts parse_number_minus)
  next
    case pos: False
    then have "int s = m" using False by (simp add: s_def)
    then show ?thesis
      using pos parse_int_layout [OF s assms(2), of False e]
      by (simp add: nts parse_number_plain)
  qed
qed

subsection \<open>Strings\<close>

lemma hex_digits_value:
  "((n div 4096 * 16 + n div 256 mod 16) * 16 + n div 16 mod 16) * 16 + n mod 16 = (n::nat)"
proof -
  have "n div 4096 = n div 256 div 16"
    using div_mult2_eq [of n 256 16] by simp
  then have a: "n div 256 = n div 4096 * 16 + n div 256 mod 16"
    by simp
  have "n div 256 = n div 16 div 16"
    using div_mult2_eq [of n 16 16] by simp
  then have b: "n div 16 = n div 256 * 16 + n div 16 mod 16"
    by simp
  have c: "n = n div 16 * 16 + n mod 16"
    by simp
  show ?thesis
    using a b c by simp
qed

lemma unat_hex_char: "d < 16 \<Longrightarrow> unat (hex_char d) = (if d < 10 then 48 + d else 87 + d)"
  unfolding hex_char_def by (subst unat_of_nat) simp

lemma hex_value_hex_char: "d < 16 \<Longrightarrow> hex_value (hex_char d) = Some d"
  by (simp add: hex_value_def unat_hex_char)

lemma parse_chars_unicode_escape:
  "parse_chars (unicode_escape c @ t) = prepend c (parse_chars t)"
proof -
  define n where "n = unat c"
  have "n < 65536"
    using unsigned_less [of c, where 'a = nat] by (simp add: n_def)
  then have d: "n div 4096 < 16" "n div 256 mod 16 < 16" "n div 16 mod 16 < 16" "n mod 16 < 16"
    by simp_all
  have c: "word_of_nat n = c"
    by (simp add: n_def)
  have "parse_chars (unicode_escape c @ t)
      = prepend (word_of_nat
          (((n div 4096 * 16 + n div 256 mod 16) * 16 + n div 16 mod 16) * 16 + n mod 16))
          (parse_chars t)"
    by (simp add: unicode_escape_def n_def [symmetric] Let_def hex_value_hex_char d
        del: of_nat_add of_nat_mult)
  then show ?thesis
    unfolding hex_digits_value c .
qed

lemma parse_chars_literal:
  "c \<noteq> 0x22 \<Longrightarrow> c \<noteq> 0x5C \<Longrightarrow> \<not> c < 0x20 \<Longrightarrow> parse_chars (c # t) = prepend c (parse_chars t)"
  by simp

lemma parse_chars_quote_unit:
  "parse_chars (quote_unit c @ t) = prepend c (parse_chars t)"
proof (cases "c < 0x20")
  case True
  then show ?thesis
    using parse_chars_unicode_escape [of c t]
    by (auto simp: quote_unit_def unescape_def)
next
  case False
  then show ?thesis
    by (auto simp: quote_unit_def unescape_def)
qed

lemma surrogate_literal:
  assumes "is_leading_surrogate c \<or> is_trailing_surrogate c"
  shows "c \<noteq> 0x22" "c \<noteq> 0x5C" "\<not> c < 0x20"
  using assms
  by (auto simp: is_leading_surrogate_def is_trailing_surrogate_def word_le_nat_alt word_less_nat_alt)

lemma parse_chars_quote_units:
  "parse_chars (quote_units s @ 0x22 # rest) = Some (s, rest)"
proof (induction s rule: quote_units.induct)
  case 1
  show ?case by simp
next
  case (2 c)
  show ?case
    using parse_chars_unicode_escape [of c "0x22 # rest"] parse_chars_quote_unit [of c "0x22 # rest"]
    by (simp add: prepend_def)
next
  case (3 c d cs)
  show ?case
  proof (cases "is_leading_surrogate c")
    case True
    note lead = this
    show ?thesis
    proof (cases "is_trailing_surrogate d")
      case True
      have "parse_chars (c # d # quote_units cs @ 0x22 # rest)
          = prepend c (prepend d (parse_chars (quote_units cs @ 0x22 # rest)))"
        using parse_chars_literal [OF surrogate_literal [OF disjI1 [OF lead]]]
          parse_chars_literal [OF surrogate_literal [OF disjI2 [OF True]]]
        by (simp del: parse_chars.simps)
      then show ?thesis
        using lead True 3(1) by (simp add: prepend_def)
    next
      case False
      then show ?thesis
        using lead 3(2) parse_chars_unicode_escape [of c "quote_units (d # cs) @ 0x22 # rest"]
        by (simp add: prepend_def)
    qed
  next
    case False
    then show ?thesis
      using 3(3,4) parse_chars_unicode_escape [of c "quote_units (d # cs) @ 0x22 # rest"]
        parse_chars_quote_unit [of c "quote_units (d # cs) @ 0x22 # rest"]
      by (cases "is_trailing_surrogate c") (simp_all add: prepend_def)
  qed
qed

subsection \<open>Objects, arrays and values\<close>

lemma insert_property_last:
  "\<forall>m \<in> set ms. \<not> goes_before k (fst m) \<Longrightarrow> insert_property k v ms = ms @ [(k, v)]"
  by (induction ms) auto

lemma CreateDataProperty_last:
  assumes "property_order (map fst (ms @ [(k, v)]))"
  shows "CreateDataProperty k v ms = ms @ [(k, v)]"
proof -
  have "\<forall>m \<in> set ms. in_order (fst m) k"
    using assms by (auto simp: property_order_def sorted_wrt_append)
  then have "k \<notin> set (map fst ms)" "\<forall>m \<in> set ms. \<not> goes_before k (fst m)"
    by (auto simp: in_order_def)
  then show ?thesis
    by (simp add: CreateDataProperty_def insert_property_last)
qed

lemma property_order_prefix:
  "property_order (map fst (xs @ ys)) \<Longrightarrow> property_order (map fst xs)"
  by (simp add: property_order_def sorted_wrt_append)

lemma skip_ws_append:
  "list_all is_json_ws xs \<Longrightarrow> (case t of [] \<Rightarrow> True | c # cs \<Rightarrow> \<not> is_json_ws c) \<Longrightarrow>
     skip_ws (xs @ t) = t"
  by (induction xs) (auto simp: skip_ws_def split: list.splits)

lemma skip_ws_Cons: "\<not> is_json_ws c \<Longrightarrow> skip_ws (c # t) = c # t"
  by (simp add: skip_ws_def)

text \<open>The first code unit of a serialization.\<close>

lemma digits_layout_start:
  assumes "ds \<noteq> []" "list_all is_digit ds"
  shows "\<exists>c cs. digits_layout ds n = c # cs \<and> is_digit c"
proof -
  obtain d ds' where ds: "ds = d # ds'" "is_digit d"
    using assms by (cases ds) auto
  have z: "is_digit 0x30" by (simp add: is_digit_def)
  show ?thesis
    using ds z by (auto simp: digits_layout_def Let_def str_def take_Cons' nat_le_iff)
qed

lemma number_to_string_start:
  "\<exists>c cs. number_to_string m e = c # cs \<and> (is_digit c \<or> c = 0x2D)"
proof -
  obtain s x where n: "normalize_decimal (nat \<bar>m\<bar>) e = (s, x)"
    by (cases "normalize_decimal (nat \<bar>m\<bar>) e")
  obtain c cs where "digits_layout (decimal s) (x + int (length (decimal s))) = c # cs" "is_digit c"
    using digits_layout_start [OF decimal_nonempty decimal_digits] by blast
  then show ?thesis
    by (auto simp: number_to_string_def n Let_def str_def is_digit_def)
qed

lemma serialize_start:
  "\<exists>c cs. SerializeJSONProperty ind v = c # cs \<and> value_start c"
proof (cases v)
  case (JNumber m e)
  then show ?thesis
    using number_to_string_start [of m e] by (auto simp: value_start_def)
qed (auto simp: value_start_def str_def QuoteJSONString_def)

lemma value_start_not_ws: "value_start c \<Longrightarrow> \<not> is_json_ws c"
  by (auto simp: value_start_def is_json_ws_def is_digit_def)

lemma join_Cons: "ys \<noteq> [] \<Longrightarrow> join sep (x # ys) = x @ sep @ join sep ys"
  by (cases ys) auto

lemma number_follow_simps:
  "number_follow []" "number_follow (0x0A # t)" "number_follow (0x2C # t)"
  by (simp_all add: number_follow_def is_digit_def)

lemma serialize_nonempty: "SerializeJSONProperty ind v \<noteq> []"
  using serialize_start [of ind v] by auto

lemma skip_ws_serialize:
  "list_all is_json_ws xs \<Longrightarrow> skip_ws (xs @ SerializeJSONProperty ind v @ t) = SerializeJSONProperty ind v @ t"
  using serialize_start [of ind v]
  by (auto intro!: skip_ws_append dest: value_start_not_ws)

lemma parse_elements_join:
  assumes "vs \<noteq> []"
    and "\<And>v rest. v \<in> set vs \<Longrightarrow> number_follow rest \<Longrightarrow>
           parse_value (SerializeJSONProperty ind' v @ rest) = Some (v, rest)"
    and "list_all is_json_ws ind" "list_all is_json_ws ind'"
  shows "parse_elements acc
           (join (0x2C # 0x0A # ind') (map (SerializeJSONProperty ind') vs) @ 0x0A # ind @ 0x5D # rest)
         = Some (JArray (acc @ vs), rest)"
  using assms
proof (induction vs arbitrary: acc rule: list_nonempty_induct)
  case (single v)
  let ?t = "0x0A # ind @ 0x5D # rest"
  have pv: "parse_value (SerializeJSONProperty ind' v @ ?t) = Some (v, ?t)"
    by (rule single(1)) (simp_all add: number_follow_simps)
  have sk: "skip_ws ?t = 0x5D # rest"
    using skip_ws_append [of "0x0A # ind" "0x5D # rest"] single(2)
    by (simp add: is_json_ws_def)
  show ?case
    by (subst parse_elements.simps) (simp add: pv sk serialize_nonempty)
next
  case (cons v vs)
  let ?J = "join (0x2C # 0x0A # ind') (map (SerializeJSONProperty ind') vs)"
  let ?tail = "0x0A # ind @ 0x5D # rest"
  let ?t = "0x2C # 0x0A # ind' @ ?J @ ?tail"
  have pv: "parse_value (SerializeJSONProperty ind' v @ ?t) = Some (v, ?t)"
    by (rule cons(3)) (simp_all add: number_follow_simps)
  obtain w ws where vs: "vs = w # ws"
    using cons(1) by (cases vs) auto
  have "skip_ws ((0x0A # ind') @ SerializeJSONProperty ind' w @
          (if ws = [] then [] else (0x2C # 0x0A # ind') @ join (0x2C # 0x0A # ind') (map (SerializeJSONProperty ind') ws)) @ ?tail)
        = SerializeJSONProperty ind' w @
          (if ws = [] then [] else (0x2C # 0x0A # ind') @ join (0x2C # 0x0A # ind') (map (SerializeJSONProperty ind') ws)) @ ?tail"
    by (rule skip_ws_serialize) (simp add: cons(5) is_json_ws_def)
  then have sk: "skip_ws (0x0A # ind' @ ?J @ ?tail) = ?J @ ?tail"
    by (cases ws) (simp_all add: vs)
  have rec: "parse_elements (acc @ [v]) (?J @ ?tail) = Some (JArray ((acc @ [v]) @ vs), rest)"
    by (rule cons(2)) (simp_all add: cons(3,4,5))
  have "parse_elements acc (SerializeJSONProperty ind' v @ ?t) = Some (JArray (acc @ v # vs), rest)"
    using rec
    by (subst parse_elements.simps)
       (simp add: pv serialize_nonempty skip_ws_Cons is_json_ws_def sk)
  then show ?case
    using cons(1) by (simp add: join_Cons)
qed

lemma skip_ws_member:
  "list_all is_json_ws xs \<Longrightarrow> skip_ws (xs @ member_text ind' m @ t) = member_text ind' m @ t"
  by (auto intro!: skip_ws_append simp: member_text_def QuoteJSONString_def is_json_ws_def)

lemma parse_members_one:
  assumes "\<And>rest. number_follow rest \<Longrightarrow>
           parse_value (SerializeJSONProperty ind' v @ rest) = Some (v, rest)"
    and "number_follow t"
  shows "parse_members acc (member_text ind' (k, v) @ t)
         = (case skip_ws t of
              [] \<Rightarrow> None
            | d # ds \<Rightarrow>
                if d = 0x2C then parse_members (CreateDataProperty k v acc) (skip_ws ds)
                else if d = 0x7D then Some (JObject (CreateDataProperty k v acc), ds)
                else None)"
proof -
  let ?R = "0x3A # 0x20 # SerializeJSONProperty ind' v @ t"
  have pc: "parse_chars (quote_units k @ 0x22 # ?R) = Some (k, ?R)"
    by (rule parse_chars_quote_units)
  have s1: "skip_ws ?R = ?R"
    by (simp add: skip_ws_Cons is_json_ws_def)
  have s2: "skip_ws (0x20 # SerializeJSONProperty ind' v @ t) = SerializeJSONProperty ind' v @ t"
    using skip_ws_serialize [of "[0x20]" ind' v t] by (simp add: is_json_ws_def)
  have pv: "parse_value (SerializeJSONProperty ind' v @ t) = Some (v, t)"
    by (rule assms(1) [OF assms(2)])
  show ?thesis
    by (subst parse_members.simps)
       (simp add: member_text_def QuoteJSONString_def pc s1 s2 pv)
qed

lemma parse_members_join:
  assumes "ms \<noteq> []"
    and "\<And>k v rest. (k, v) \<in> set ms \<Longrightarrow> number_follow rest \<Longrightarrow>
           parse_value (SerializeJSONProperty ind' v @ rest) = Some (v, rest)"
    and "list_all is_json_ws ind" "list_all is_json_ws ind'"
    and "property_order (map fst (acc @ ms))"
  shows "parse_members acc
           (join (0x2C # 0x0A # ind') (map (member_text ind') ms) @ 0x0A # ind @ 0x7D # rest)
         = Some (JObject (acc @ ms), rest)"
  using assms
proof (induction ms arbitrary: acc rule: list_nonempty_induct)
  case (single m)
  obtain k v where m: "m = (k, v)" by (cases m)
  let ?t = "0x0A # ind @ 0x7D # rest"
  have sk: "skip_ws ?t = 0x7D # rest"
    using skip_ws_append [of "0x0A # ind" "0x7D # rest"] single(2)
    by (simp add: is_json_ws_def)
  have cdp: "CreateDataProperty k v acc = acc @ [(k, v)]"
    using single(4) by (intro CreateDataProperty_last) (simp add: m)
  have "parse_members acc (member_text ind' (k, v) @ ?t) = Some (JObject (acc @ [(k, v)]), rest)"
    by (subst parse_members_one) (simp_all add: single(1) m number_follow_simps sk cdp)
  then show ?case
    by (simp add: m)
next
  case (cons m ms)
  obtain k v where m: "m = (k, v)" by (cases m)
  let ?J = "join (0x2C # 0x0A # ind') (map (member_text ind') ms)"
  let ?tail = "0x0A # ind @ 0x7D # rest"
  let ?t = "0x2C # 0x0A # ind' @ ?J @ ?tail"
  obtain w ws where ms: "ms = w # ws"
    using cons(1) by (cases ms) auto
  have "skip_ws ((0x0A # ind') @ member_text ind' w @
          (if ws = [] then [] else (0x2C # 0x0A # ind') @ join (0x2C # 0x0A # ind') (map (member_text ind') ws)) @ ?tail)
        = member_text ind' w @
          (if ws = [] then [] else (0x2C # 0x0A # ind') @ join (0x2C # 0x0A # ind') (map (member_text ind') ws)) @ ?tail"
    by (rule skip_ws_member) (simp add: cons(5) is_json_ws_def)
  then have sk: "skip_ws (0x0A # ind' @ ?J @ ?tail) = ?J @ ?tail"
    by (cases ws) (simp_all add: ms)
  have cdp: "CreateDataProperty k v acc = acc @ [(k, v)]"
    using property_order_prefix [of "acc @ [(k, v)]" ms] cons(6)
    by (intro CreateDataProperty_last) (simp add: m)
  have ih: "parse_value (SerializeJSONProperty ind' v' @ rest') = Some (v', rest')"
    if "(k', v') \<in> set ms" "number_follow rest'" for k' v' rest'
    using cons(3) that by auto
  have pv: "parse_value (SerializeJSONProperty ind' v @ rest') = Some (v, rest')"
    if "number_follow rest'" for rest'
    using cons(3) [of k v] that by (simp add: m)
  have rec: "parse_members (acc @ [(k, v)]) (?J @ ?tail) = Some (JObject ((acc @ [(k, v)]) @ ms), rest)"
    using cons(6) by (intro cons(2) [OF ih cons(4,5)]) (simp_all add: m)
  have "parse_members acc (member_text ind' (k, v) @ ?t) = Some (JObject (acc @ (k, v) # ms), rest)"
    using rec
    by (subst parse_members_one [OF pv])
       (simp_all add: number_follow_simps skip_ws_Cons is_json_ws_def sk cdp)
  then show ?case
    using cons(1) by (simp add: join_Cons m)
qed

lemma gap_ws: "list_all is_json_ws ind \<Longrightarrow> list_all is_json_ws (ind @ gap)"
  by (simp add: gap_def str_def is_json_ws_def)

lemma parse_value_number:
  "parse_value (number_to_string m e @ rest) = parse_number (number_to_string m e @ rest)"
proof -
  obtain c cs where "number_to_string m e = c # cs" "is_digit c \<or> c = 0x2D"
    using number_to_string_start [of m e] by blast
  then show ?thesis
    by (auto simp: str_def is_digit_def)
qed

lemma value_start_not_close: "value_start c \<Longrightarrow> c \<noteq> 0x5D \<and> c \<noteq> 0x7D"
  by (auto simp: value_start_def is_digit_def)

lemma parse_value_array:
  assumes "vs \<noteq> []"
    and "\<And>v rest. v \<in> set vs \<Longrightarrow> number_follow rest \<Longrightarrow>
           parse_value (SerializeJSONProperty (ind @ gap) v @ rest) = Some (v, rest)"
    and "list_all is_json_ws ind"
  shows "parse_value (SerializeJSONProperty ind (JArray vs) @ rest) = Some (JArray vs, rest)"
proof -
  let ?ind' = "ind @ gap"
  let ?body = "join (0x2C # 0x0A # ?ind') (map (SerializeJSONProperty ?ind') vs) @ 0x0A # ind @ 0x5D # rest"
  have ws': "list_all is_json_ws ?ind'"
    by (rule gap_ws [OF assms(3)])
  have pe: "parse_elements [] ?body = Some (JArray ([] @ vs), rest)"
    by (rule parse_elements_join [OF assms(1,2,3) ws'])
  obtain w ws where vs: "vs = w # ws"
    using assms(1) by (cases vs) auto
  obtain c cs where st: "SerializeJSONProperty ?ind' w = c # cs" "value_start c"
    using serialize_start [of ?ind' w] by blast
  have "skip_ws ((0x0A # ?ind') @ SerializeJSONProperty ?ind' w @
          (if ws = [] then [] else (0x2C # 0x0A # ?ind') @ join (0x2C # 0x0A # ?ind') (map (SerializeJSONProperty ?ind') ws))
          @ 0x0A # ind @ 0x5D # rest)
        = SerializeJSONProperty ?ind' w @
          (if ws = [] then [] else (0x2C # 0x0A # ?ind') @ join (0x2C # 0x0A # ?ind') (map (SerializeJSONProperty ?ind') ws))
          @ 0x0A # ind @ 0x5D # rest"
    using ws' by (intro skip_ws_serialize) (simp add: is_json_ws_def)
  then have sk: "skip_ws (0x0A # ?ind' @ ?body) = ?body"
    by (cases ws) (simp_all add: vs)
  have "\<exists>cs'. ?body = c # cs'"
    using st(1) by (cases ws) (simp_all add: vs)
  then obtain cs' where body: "?body = c # cs'"
    by blast
  have c: "c \<noteq> 0x5D"
    using value_start_not_close [OF st(2)] by simp
  have "parse_value (0x5B # 0x0A # ?ind' @ ?body) = Some (JArray vs, rest)"
    using pe c sk unfolding body by simp
  then show ?thesis
    using assms(1) by (simp add: str_def)
qed

lemma serialize_object:
  "ms \<noteq> [] \<Longrightarrow> SerializeJSONProperty ind (JObject ms)
     = 0x7B # 0x0A # (ind @ gap)
       @ join (0x2C # 0x0A # ind @ gap) (map (member_text (ind @ gap)) ms) @ 0x0A # ind @ [0x7D]"
proof -
  have "(\<lambda>(k, v). QuoteJSONString k @ str '':'' @ str '' '' @ SerializeJSONProperty (ind @ gap) v)
      = member_text (ind @ gap)"
    by (auto simp: member_text_def str_def fun_eq_iff)
  then show "ms \<noteq> [] \<Longrightarrow> ?thesis"
    by (simp add: str_def)
qed

lemma parse_value_object:
  assumes "ms \<noteq> []"
    and "\<And>k v rest. (k, v) \<in> set ms \<Longrightarrow> number_follow rest \<Longrightarrow>
           parse_value (SerializeJSONProperty (ind @ gap) v @ rest) = Some (v, rest)"
    and "list_all is_json_ws ind"
    and "property_order (map fst ms)"
  shows "parse_value (SerializeJSONProperty ind (JObject ms) @ rest) = Some (JObject ms, rest)"
proof -
  let ?ind' = "ind @ gap"
  let ?body = "join (0x2C # 0x0A # ?ind') (map (member_text ?ind') ms) @ 0x0A # ind @ 0x7D # rest"
  have ws': "list_all is_json_ws ?ind'"
    by (rule gap_ws [OF assms(3)])
  have po: "property_order (map fst ([] @ ms))"
    using assms(4) by simp
  have pm: "parse_members [] ?body = Some (JObject ([] @ ms), rest)"
    by (rule parse_members_join [OF assms(1,2,3) ws' po])
  obtain w ws where ms: "ms = w # ws"
    using assms(1) by (cases ms) auto
  have "skip_ws ((0x0A # ?ind') @ member_text ?ind' w @
          (if ws = [] then [] else (0x2C # 0x0A # ?ind') @ join (0x2C # 0x0A # ?ind') (map (member_text ?ind') ws))
          @ 0x0A # ind @ 0x7D # rest)
        = member_text ?ind' w @
          (if ws = [] then [] else (0x2C # 0x0A # ?ind') @ join (0x2C # 0x0A # ?ind') (map (member_text ?ind') ws))
          @ 0x0A # ind @ 0x7D # rest"
    using ws' by (intro skip_ws_member) (simp add: is_json_ws_def)
  then have sk: "skip_ws (0x0A # ?ind' @ ?body) = ?body"
    by (cases ws) (simp_all add: ms)
  have "\<exists>cs'. ?body = 0x22 # cs'"
    by (cases ws) (simp_all add: ms member_text_def QuoteJSONString_def)
  then obtain cs' where body: "?body = 0x22 # cs'"
    by blast
  have "parse_value (0x7B # 0x0A # ?ind' @ ?body) = Some (JObject ms, rest)"
    using pm sk unfolding body by simp
  then show ?thesis
    unfolding serialize_object [OF assms(1)] by simp
qed

lemma parse_value_serialize:
  "canonical v \<Longrightarrow> list_all is_json_ws ind \<Longrightarrow> number_follow rest \<Longrightarrow>
     parse_value (SerializeJSONProperty ind v @ rest) = Some (v, rest)"
proof (induction v arbitrary: ind rest)
  case JNull
  show ?case by (simp add: str_def)
next
  case (JBool b)
  show ?case by (simp add: str_def)
next
  case (JNumber m e)
  then show ?case
    by (simp add: parse_value_number parse_number_to_string)
next
  case (JString s)
  show ?case
    using parse_chars_quote_units [of s rest] by (simp add: QuoteJSONString_def)
next
  case (JArray vs)
  show ?case
  proof (cases "vs = []")
    case True
    then show ?thesis
      by (simp add: str_def skip_ws_Cons is_json_ws_def)
  next
    case False
    have ih: "parse_value (SerializeJSONProperty (ind @ gap) v @ rest') = Some (v, rest')"
      if "v \<in> set vs" "number_follow rest'" for v rest'
    proof (rule JArray.IH [OF that(1) _ gap_ws [OF JArray.prems(2)] that(2)])
      show "canonical v"
        using JArray.prems(1) that(1) by (simp add: list_all_iff)
    qed
    show ?thesis
      by (rule parse_value_array [OF False ih JArray.prems(2)])
  qed
next
  case (JObject ms)
  show ?case
  proof (cases "ms = []")
    case True
    then show ?thesis
      by (simp add: str_def skip_ws_Cons is_json_ws_def)
  next
    case False
    have ih: "parse_value (SerializeJSONProperty (ind @ gap) v @ rest') = Some (v, rest')"
      if "(k, v) \<in> set ms" "number_follow rest'" for k v rest'
    proof (rule JObject.IH [OF that(1) _ _ gap_ws [OF JObject.prems(2)] that(2)])
      show "v \<in> Basic_BNFs.snds (k, v)" by simp
      show "canonical v"
        using JObject.prems(1) that(1) by (auto simp: list_all_iff)
    qed
    have po: "property_order (map fst ms)"
      using JObject.prems(1) by simp
    show ?thesis
      by (rule parse_value_object [OF False ih JObject.prems(2) po])
  qed
qed

theorem JSON_parse_stringify: "canonical v \<Longrightarrow> JSON_parse (JSON_stringify v) = Some v"
proof -
  assume "canonical v"
  then have "parse_value (SerializeJSONProperty [] v @ []) = Some (v, [])"
    by (intro parse_value_serialize) (simp_all add: number_follow_simps)
  moreover have "skip_ws (SerializeJSONProperty [] v) = SerializeJSONProperty [] v"
    using skip_ws_serialize [of "[]" "[]" v "[]"] by simp
  ultimately show ?thesis
    by (simp add: JSON_parse_def JSON_stringify_def skip_ws_def)
qed

section \<open>The parser consumes input and returns canonical values\<close>

text \<open>
  Every successful parse leaves a shorter rest, so the length tests in \<open>parse_elements\<close>
  and \<open>parse_members\<close> never fail and both functions satisfy the recursion equations
  without them. Every value \<open>JSON.parse\<close> returns is canonical: the values a response
  delivers to the client are among those the round trip is proved for.
\<close>

lemma prepend_Some: "prepend c x = Some (u, r) \<longleftrightarrow> (\<exists>u'. x = Some (u', r) \<and> u = c # u')"
  by (auto simp: prepend_def split: option.splits)

lemma parse_chars_consumes: "parse_chars s = Some (u, r) \<Longrightarrow> length r < length s"
proof (induction "length s" arbitrary: s u r rule: less_induct)
  case less
  have ih: "length r' < length t"
    if "parse_chars t = Some (u', r')" "length t < length s" for t u' r'
    using less.hyps [OF that(2) that(1)] .
  obtain c cs where s: "s = c # cs"
    using less.prems by (cases s) auto
  note p = less.prems [unfolded s]
  show ?case
  proof (cases "c = 0x22")
    case True
    then show ?thesis using p by (simp add: s)
  next
    case quote: False
    show ?thesis
    proof (cases "c = 0x5C")
      case True
      then obtain e es where cs: "cs = e # es"
        using p by (cases cs) auto
      show ?thesis
      proof (cases "e = 0x75")
        case True
        obtain h1 h2 h3 h4 t where es: "es = h1 # h2 # h3 # h4 # t"
          using p \<open>c = 0x5C\<close> True unfolding cs
          by (auto split: list.splits)
        obtain u' where "parse_chars t = Some (u', r)"
          using p \<open>c = 0x5C\<close> True unfolding cs es
          by (auto simp: prepend_Some split: option.splits)
        then show ?thesis
          using ih [of t u' r] by (simp add: s cs es)
      next
        case False
        obtain u' where "parse_chars es = Some (u', r)"
          using p \<open>c = 0x5C\<close> False unfolding cs
          by (auto simp: prepend_Some split: option.splits)
        then show ?thesis
          using ih [of es u' r] by (simp add: s cs)
      qed
    next
      case False
      obtain u' where "parse_chars cs = Some (u', r)"
        using p quote False by (auto simp: prepend_Some split: if_splits)
      then show ?thesis
        using ih [of cs u' r] by (simp add: s)
    qed
  qed
qed

lemma parse_exponent_consumes:
  "parse_exponent neg ip fd s = Some (v, r) \<Longrightarrow> length r \<le> length s"
  by (auto simp: parse_exponent_def Let_def split: list.splits if_splits
      intro: le_trans [OF length_dropWhile_le] le_SucI)

lemma parse_fraction_consumes:
  "parse_fraction neg ip s = Some (v, r) \<Longrightarrow> length r \<le> length s"
  by (auto simp: parse_fraction_def Let_def split: list.splits if_splits
      dest!: parse_exponent_consumes
      intro: le_trans [OF _ length_dropWhile_le] le_SucI)

lemma parse_int_consumes:
  "parse_int neg s = Some (v, r) \<Longrightarrow> length r < length s"
proof (cases s)
  case Nil
  then show "parse_int neg s = Some (v, r) \<Longrightarrow> ?thesis"
    by (simp add: parse_int_def)
next
  case (Cons c cs)
  assume p: "parse_int neg s = Some (v, r)"
  show ?thesis
  proof (cases "c = 0x30")
    case True
    then show ?thesis
      using p Cons parse_fraction_consumes [of neg "[c]" cs v r] by (simp add: parse_int_def)
  next
    case False
    then have d: "is_digit c"
      using p Cons by (auto simp: parse_int_def split: if_splits)
    then have "parse_fraction neg (takeWhile is_digit s) (dropWhile is_digit cs) = Some (v, r)"
      using p Cons False by (simp add: parse_int_def)
    then have "length r \<le> length (dropWhile is_digit cs)"
      by (rule parse_fraction_consumes)
    then show ?thesis
      using length_dropWhile_le [of is_digit cs] Cons by simp
  qed
qed

lemma parse_number_consumes:
  "parse_number s = Some (v, r) \<Longrightarrow> length r < length s"
  by (auto simp: parse_number_def split: list.splits if_splits dest!: parse_int_consumes)

lemma skip_ws_Cons_le: "skip_ws s = d # ds \<Longrightarrow> length ds < length s \<and> length (d # ds) \<le> length s"
  using length_skip_ws [of s] by simp

lemma parse_consumes:
  shows "parse_value s = Some (v, r) \<Longrightarrow> length r < length s"
    and "parse_elements acc s = Some (v, r) \<Longrightarrow> length r < length s"
    and "parse_members macc s = Some (v, r) \<Longrightarrow> length r < length s"
proof (induction s and acc s and macc s arbitrary: v r and v r and v r
    rule: parse_value_parse_elements_parse_members.induct)
  case 1
  then show ?case by simp
next
  case (2 c cs)
  show ?case
  proof (cases "c = 0x7B")
    case True
    then obtain d ds where sk: "skip_ws cs = d # ds"
      using "2.prems" by (cases "skip_ws cs") auto
    show ?thesis
    proof (cases "d = 0x7D")
      case close: True
      then show ?thesis
        using "2.prems" True sk skip_ws_Cons_le [OF sk] by simp
    next
      case False
      then have "parse_members [] (d # ds) = Some (v, r)"
        using "2.prems" True sk by simp
      then have "length r < length (d # ds)"
        by (rule "2.IH"(1) [OF True sk False])
      then show ?thesis
        using skip_ws_Cons_le [OF sk] by simp
    qed
  next
    case nobrace: False
    show ?thesis
    proof (cases "c = 0x5B")
      case True
      then obtain d ds where sk: "skip_ws cs = d # ds"
        using "2.prems" by (cases "skip_ws cs") auto
      show ?thesis
      proof (cases "d = 0x5D")
        case close: True
        then show ?thesis
          using "2.prems" True sk skip_ws_Cons_le [OF sk] by simp
      next
        case False
        then have "parse_elements [] (d # ds) = Some (v, r)"
          using "2.prems" True sk by simp
        then have "length r < length (d # ds)"
          by (rule "2.IH"(2) [OF nobrace True sk False])
        then show ?thesis
          using skip_ws_Cons_le [OF sk] by simp
      qed
    next
      case nobracket: False
      show ?thesis
      proof (cases "c = 0x22")
        case True
        then obtain u where "parse_chars cs = Some (u, r)"
          using "2.prems" by (auto split: option.splits)
        then show ?thesis
          using parse_chars_consumes [of cs u r] by simp
      next
        case False
        then consider "r = drop 4 (c # cs)" | "r = drop 5 (c # cs)"
          | "parse_number (c # cs) = Some (v, r)"
          using "2.prems" nobrace nobracket by (auto split: if_splits)
        then show ?thesis
          using parse_number_consumes [of "c # cs" v r] by cases auto
      qed
    qed
  qed
next
  case (3 acc s)
  from "3.prems" obtain x y where pv: "parse_value s = Some (x, y)" and len: "length y < length s"
    by (subst (asm) parse_elements.simps) (auto split: option.splits if_splits)
  from "3.prems" pv len obtain d ds where sk: "skip_ws y = d # ds"
    by (subst (asm) parse_elements.simps) (auto split: list.splits)
  show ?case
  proof (cases "d = 0x2C")
    case True
    then have "parse_elements (acc @ [x]) (skip_ws ds) = Some (v, r)"
      using "3.prems" pv len sk by (subst (asm) parse_elements.simps) simp
    then have "length r < length (skip_ws ds)"
      by (rule "3.IH"(2) [OF pv refl len sk True])
    then show ?thesis
      using length_skip_ws [of ds] skip_ws_Cons_le [OF sk] len by simp
  next
    case False
    then have "r = ds"
      using "3.prems" pv len sk
      by (subst (asm) parse_elements.simps) (auto split: if_splits)
    then show ?thesis
      using skip_ws_Cons_le [OF sk] len by simp
  qed
next
  case (4 macc s)
  from "4.prems" obtain q s1 where s: "s = q # s1" and q: "q = 0x22"
    by (subst (asm) parse_members.simps) (auto split: list.splits if_splits)
  from "4.prems" s q obtain k r1 where pc: "parse_chars s1 = Some (k, r1)"
    by (subst (asm) parse_members.simps) (auto split: option.splits)
  from "4.prems" s q pc obtain colon r2 where sk1: "skip_ws r1 = colon # r2"
    by (subst (asm) parse_members.simps) (auto split: list.splits)
  from "4.prems" s q pc sk1 have colon: "colon = 0x3A \<and> length r2 < length s"
    by (subst (asm) parse_members.simps) (auto split: if_splits)
  from "4.prems" s q pc sk1 colon obtain x r3 where pv: "parse_value (skip_ws r2) = Some (x, r3)"
    by (subst (asm) parse_members.simps) (auto split: option.splits)
  from "4.prems" s q pc sk1 colon pv have len: "length r3 < length s"
    by (subst (asm) parse_members.simps) (auto split: if_splits)
  from "4.prems" s q pc sk1 colon pv len obtain d ds where sk: "skip_ws r3 = d # ds"
    by (subst (asm) parse_members.simps) (auto split: list.splits)
  show ?case
  proof (cases "d = 0x2C")
    case True
    then have "parse_members (CreateDataProperty k x macc) (skip_ws ds) = Some (v, r)"
      using "4.prems" s q pc sk1 colon pv len sk by (subst (asm) parse_members.simps) simp
    then have "length r < length (skip_ws ds)"
      by (rule "4.IH"(2) [OF s q pc refl sk1 colon pv refl len sk True])
    then show ?thesis
      using length_skip_ws [of ds] skip_ws_Cons_le [OF sk] len by simp
  next
    case False
    then have "r = ds"
      using "4.prems" s q pc sk1 colon pv len sk
      by (subst (asm) parse_members.simps) (auto split: if_splits)
    then show ?thesis
      using skip_ws_Cons_le [OF sk] len by simp
  qed
qed

text \<open>The recursion equations without the length tests.\<close>

lemma parse_elements_eq:
  "parse_elements acc s =
     (case parse_value s of
        None \<Rightarrow> None
      | Some (v, r) \<Rightarrow>
          (case skip_ws r of
             [] \<Rightarrow> None
           | d # ds \<Rightarrow>
               if d = 0x2C then parse_elements (acc @ [v]) (skip_ws ds)
               else if d = 0x5D then Some (JArray (acc @ [v]), ds)
               else None))"
  by (subst parse_elements.simps) (auto split: option.splits dest: parse_consumes(1))

lemma parse_members_eq:
  "parse_members acc s =
     (case s of
        [] \<Rightarrow> None
      | q # s1 \<Rightarrow>
          if q = 0x22 then
            (case parse_chars s1 of
               None \<Rightarrow> None
             | Some (k, r1) \<Rightarrow>
                 (case skip_ws r1 of
                    [] \<Rightarrow> None
                  | colon # r2 \<Rightarrow>
                      if colon = 0x3A then
                        (case parse_value (skip_ws r2) of
                           None \<Rightarrow> None
                         | Some (v, r3) \<Rightarrow>
                             (case skip_ws r3 of
                                [] \<Rightarrow> None
                              | d # ds \<Rightarrow>
                                  if d = 0x2C then
                                    parse_members (CreateDataProperty k v acc) (skip_ws ds)
                                  else if d = 0x7D then
                                    Some (JObject (CreateDataProperty k v acc), ds)
                                  else None))
                      else None))
          else None)"
proof (cases s)
  case Nil
  then show ?thesis by (subst parse_members.simps) simp
next
  case (Cons q s1)
  show ?thesis
  proof (cases "parse_chars s1")
    case None
    then show ?thesis using Cons by (subst parse_members.simps) simp
  next
    case (Some kr)
    obtain k r1 where kr: "kr = (k, r1)" by (cases kr)
    have l1: "length r1 < length s1"
      using parse_chars_consumes [of s1 k r1] Some kr by simp
    show ?thesis
    proof (cases "skip_ws r1")
      case Nil
      then show ?thesis using Cons Some kr by (subst parse_members.simps) simp
    next
      case sk: (Cons colon r2)
      have l2: "length r2 < length s"
        using skip_ws_Cons_le [OF sk] l1 Cons by simp
      show ?thesis
      proof (cases "parse_value (skip_ws r2)")
        case None
        then show ?thesis using Cons Some kr sk by (subst parse_members.simps) simp
      next
        case pv: (Some vr)
        obtain v r3 where vr: "vr = (v, r3)" by (cases vr)
        have "length r3 < length s"
          using parse_consumes(1) [of "skip_ws r2" v r3] pv vr length_skip_ws [of r2] l2 by simp
        then show ?thesis
          using Cons Some kr sk l2 pv vr by (subst parse_members.simps) simp
      qed
    qed
  qed
qed

lemma normalize_decimal_canonical:
  "normalize_decimal s e = (s', e') \<Longrightarrow> (s' = 0 \<and> e' = 0) \<or> (0 < s' \<and> s' mod 10 \<noteq> 0)"
proof (induction s e rule: normalize_decimal.induct)
  case (1 s e)
  show ?case
  proof (cases "s = 0")
    case True
    then show ?thesis
      using "1.prems" by (subst (asm) normalize_decimal.simps) simp
  next
    case False
    show ?thesis
    proof (cases "s mod 10 = 0")
      case True
      then have "normalize_decimal (s div 10) (e + 1) = (s', e')"
        using "1.prems" False by (subst (asm) normalize_decimal.simps) simp
      then show ?thesis
        by (rule "1.IH" [OF False True])
    next
      case nz: False
      then show ?thesis
        using "1.prems" False by (subst (asm) normalize_decimal.simps) auto
    qed
  qed
qed

lemma canonical_make_number: "canonical (make_number neg ip fd ex)"
proof -
  obtain s x where n: "normalize_decimal (digits_value (ip @ fd)) (ex - int (length fd)) = (s, x)"
    by (cases "normalize_decimal (digits_value (ip @ fd)) (ex - int (length fd))")
  from normalize_decimal_canonical [OF n] have "canonical_number (int s) x \<and> canonical_number (- int s) x"
  proof
    assume "s = 0 \<and> x = 0"
    then show ?thesis by (simp add: canonical_number_def)
  next
    assume s: "0 < s \<and> s mod 10 \<noteq> 0"
    then have "\<not> 10 dvd s"
      by (simp add: dvd_eq_mod_eq_0)
    then have "\<not> 10 dvd int s"
      using int_dvd_int_iff [of 10 s] by simp
    then have "\<not> 10 dvd int s" "\<not> 10 dvd - int s"
      by simp_all
    then have "int s mod 10 \<noteq> 0" "(- int s) mod 10 \<noteq> 0"
      unfolding dvd_eq_mod_eq_0 by blast+
    then show ?thesis
      using s by (simp add: canonical_number_def)
  qed
  then show ?thesis
    by (simp add: make_number_def n)
qed

lemma canonical_parse_exponent: "parse_exponent neg ip fd s = Some (v, r) \<Longrightarrow> canonical v"
  by (auto simp: parse_exponent_def Let_def canonical_make_number split: list.splits if_splits)

lemma canonical_parse_fraction: "parse_fraction neg ip s = Some (v, r) \<Longrightarrow> canonical v"
  by (auto simp: parse_fraction_def Let_def split: list.splits if_splits
      dest: canonical_parse_exponent)

lemma canonical_parse_int: "parse_int neg s = Some (v, r) \<Longrightarrow> canonical v"
  by (auto simp: parse_int_def split: list.splits if_splits dest: canonical_parse_fraction)

lemma canonical_parse_number: "parse_number s = Some (v, r) \<Longrightarrow> canonical v"
  by (auto simp: parse_number_def split: list.splits if_splits dest: canonical_parse_int)

lemma goes_before_asym: "goes_before a b \<Longrightarrow> \<not> goes_before b a"
  by (auto simp: goes_before_def split: option.splits)

lemma goes_before_trans: "goes_before a b \<Longrightarrow> goes_before b c \<Longrightarrow> goes_before a c"
  by (auto simp: goes_before_def split: option.splits)

lemma set_insert_property: "set (insert_property k v ms) = insert (k, v) (set ms)"
proof (induction ms)
  case Nil
  show ?case by simp
next
  case (Cons m ms)
  then show ?case
    by (cases m; cases "goes_before k (fst m)") auto
qed

lemma keys_insert_property:
  "set (map fst (insert_property k v ms)) = insert k (set (map fst ms))"
  by (simp add: set_insert_property)

lemma values_insert_property:
  "set (map snd (insert_property k v ms)) = insert v (set (map snd ms))"
  by (simp add: set_insert_property)

lemma property_order_insert:
  "property_order (map fst ms) \<Longrightarrow> k \<notin> set (map fst ms) \<Longrightarrow>
     property_order (map fst (insert_property k v ms))"
proof (induction ms)
  case Nil
  then show ?case by (simp add: property_order_def)
next
  case (Cons m ms)
  obtain k' v' where m: "m = (k', v')" by (cases m)
  have sorted: "property_order (map fst ms)" and first: "\<forall>y \<in> set (map fst ms). in_order k' y"
    using Cons.prems(1) by (simp_all add: property_order_def m)
  have new: "k \<noteq> k'" "k \<notin> set (map fst ms)"
    using Cons.prems(2) by (auto simp: m)
  show ?case
  proof (cases "goes_before k k'")
    case True
    have "in_order k k'"
      using True new(1) by (simp add: in_order_def goes_before_asym)
    moreover have "in_order k y" if "y \<in> set (map fst ms)" for y
    proof -
      have "\<not> goes_before y k'"
        using first that by (auto simp: in_order_def)
      then have "\<not> goes_before y k"
        using goes_before_trans [OF _ True] by blast
      then show ?thesis
        using new(2) that by (auto simp: in_order_def)
    qed
    ultimately show ?thesis
      using True Cons.prems(1) by (simp add: property_order_def m)
  next
    case False
    have "in_order k' y" if "y \<in> set (map fst (insert_property k v ms))" for y
    proof -
      have "y = k \<or> y \<in> set (map fst ms)"
        using that unfolding keys_insert_property by simp
      then show ?thesis
        using first False new(1) by (auto simp: in_order_def)
    qed
    then show ?thesis
      using False Cons.IH [OF sorted new(2)] by (simp add: property_order_def m)
  qed
qed

lemma replace_property_keys:
  "map fst (map (\<lambda>(k', v'). if k' = k then (k', v) else (k', v')) ms) = map fst ms"
  by (induction ms) auto

lemma replace_property_values:
  "set (map snd (map (\<lambda>(k', v'). if k' = k then (k', v) else (k', v')) ms))
     \<subseteq> insert v (set (map snd ms))"
  by (induction ms) auto

lemma canonical_CreateDataProperty:
  assumes "canonical (JObject ms)" "canonical v"
  shows "canonical (JObject (CreateDataProperty k v ms))"
proof -
  have po: "property_order (map fst ms)" and vals: "\<forall>x \<in> set (map snd ms). canonical x"
    using assms(1) by (simp_all add: list_all_iff)
  have "property_order (map fst (CreateDataProperty k v ms))"
    using po property_order_insert [of ms k v]
    by (simp add: CreateDataProperty_def replace_property_keys del: map_map)
  moreover have "set (map snd (CreateDataProperty k v ms)) \<subseteq> insert v (set (map snd ms))"
    using replace_property_values [of k v ms] values_insert_property [of k v ms]
    by (simp add: CreateDataProperty_def del: map_map)
  then have "\<forall>x \<in> set (map snd (CreateDataProperty k v ms)). canonical x"
    using vals assms(2) by blast
  ultimately show ?thesis
    by (simp add: list_all_iff)
qed

lemma parse_canonical:
  shows "parse_value s = Some (v, r) \<Longrightarrow> canonical v"
    and "parse_elements acc s = Some (v, r) \<Longrightarrow> list_all canonical acc \<Longrightarrow> canonical v"
    and "parse_members macc s = Some (v, r) \<Longrightarrow> canonical (JObject macc) \<Longrightarrow> canonical v"
proof (induction s and acc s and macc s arbitrary: v r and v r and v r
    rule: parse_value_parse_elements_parse_members.induct)
  case 1
  then show ?case by simp
next
  case (2 c cs)
  show ?case
  proof (cases "c = 0x7B")
    case True
    then obtain d ds where sk: "skip_ws cs = d # ds"
      using "2.prems" by (cases "skip_ws cs") auto
    show ?thesis
    proof (cases "d = 0x7D")
      case close: True
      then show ?thesis
        using "2.prems" True sk by (auto simp: property_order_def)
    next
      case False
      then have "parse_members [] (d # ds) = Some (v, r)"
        using "2.prems" True sk by simp
      then show ?thesis
        by (rule "2.IH"(1) [OF True sk False]) (simp add: property_order_def)
    qed
  next
    case nobrace: False
    show ?thesis
    proof (cases "c = 0x5B")
      case True
      then obtain d ds where sk: "skip_ws cs = d # ds"
        using "2.prems" by (cases "skip_ws cs") auto
      show ?thesis
      proof (cases "d = 0x5D")
        case close: True
        then show ?thesis
          using "2.prems" True sk by auto
      next
        case False
        then have "parse_elements [] (d # ds) = Some (v, r)"
          using "2.prems" True sk by simp
        then show ?thesis
          by (rule "2.IH"(2) [OF nobrace True sk False]) simp
      qed
    next
      case nobracket: False
      show ?thesis
      proof (cases "c = 0x22")
        case True
        then show ?thesis
          using "2.prems" by (auto split: option.splits)
      next
        case False
        then consider "v = JNull" | "\<exists>b. v = JBool b" | "parse_number (c # cs) = Some (v, r)"
          using "2.prems" nobrace nobracket by (auto split: if_splits)
        then show ?thesis
          using canonical_parse_number [of "c # cs" v r] by cases auto
      qed
    qed
  qed
next
  case (3 acc s)
  note p = "3.prems"(1)
  from p obtain x y where pv: "parse_value s = Some (x, y)" and len: "length y < length s"
    by (subst (asm) parse_elements.simps) (auto split: option.splits if_splits)
  from p pv len obtain d ds where sk: "skip_ws y = d # ds"
    by (subst (asm) parse_elements.simps) (auto split: list.splits)
  have x: "canonical x"
    by (rule "3.IH"(1) [OF pv])
  then have acc': "list_all canonical (acc @ [x])"
    using "3.prems"(2) by simp
  show ?case
  proof (cases "d = 0x2C")
    case True
    then have "parse_elements (acc @ [x]) (skip_ws ds) = Some (v, r)"
      using p pv len sk by (subst (asm) parse_elements.simps) simp
    then show ?thesis
      by (rule "3.IH"(2) [OF pv refl len sk True]) (rule acc')
  next
    case False
    then have "v = JArray (acc @ [x])"
      using p pv len sk
      by (subst (asm) parse_elements.simps) (auto split: if_splits)
    then show ?thesis
      using acc' by simp
  qed
next
  case (4 macc s)
  note p = "4.prems"(1)
  from p obtain q s1 where s: "s = q # s1" and q: "q = 0x22"
    by (subst (asm) parse_members.simps) (auto split: list.splits if_splits)
  from p s q obtain k r1 where pc: "parse_chars s1 = Some (k, r1)"
    by (subst (asm) parse_members.simps) (auto split: option.splits)
  from p s q pc obtain colon r2 where sk1: "skip_ws r1 = colon # r2"
    by (subst (asm) parse_members.simps) (auto split: list.splits)
  from p s q pc sk1 have colon: "colon = 0x3A \<and> length r2 < length s"
    by (subst (asm) parse_members.simps) (auto split: if_splits)
  from p s q pc sk1 colon obtain x r3 where pv: "parse_value (skip_ws r2) = Some (x, r3)"
    by (subst (asm) parse_members.simps) (auto split: option.splits)
  from p s q pc sk1 colon pv have len: "length r3 < length s"
    by (subst (asm) parse_members.simps) (auto split: if_splits)
  from p s q pc sk1 colon pv len obtain d ds where sk: "skip_ws r3 = d # ds"
    by (subst (asm) parse_members.simps) (auto split: list.splits)
  have x: "canonical x"
    by (rule "4.IH"(1) [OF s q pc refl sk1 colon pv])
  have acc': "canonical (JObject (CreateDataProperty k x macc))"
    by (rule canonical_CreateDataProperty [OF "4.prems"(2) x])
  show ?case
  proof (cases "d = 0x2C")
    case True
    then have "parse_members (CreateDataProperty k x macc) (skip_ws ds) = Some (v, r)"
      using p s q pc sk1 colon pv len sk by (subst (asm) parse_members.simps) simp
    then show ?thesis
      by (rule "4.IH"(2) [OF s q pc refl sk1 colon pv refl len sk True]) (rule acc')
  next
    case False
    then have "v = JObject (CreateDataProperty k x macc)"
      using p s q pc sk1 colon pv len sk
      by (subst (asm) parse_members.simps) (auto split: if_splits)
    then show ?thesis
      using acc' by simp
  qed
qed

lemma JSON_parse_canonical: "JSON_parse s = Some v \<Longrightarrow> canonical v"
  by (auto simp: JSON_parse_def split: option.splits if_splits dest: parse_canonical(1))

lemma JSON_parse_stringify_parsed:
  "JSON_parse s = Some v \<Longrightarrow> JSON_parse (JSON_stringify v) = Some v"
  by (rule JSON_parse_stringify [OF JSON_parse_canonical])

section \<open>The search form's preconditions\<close>

lemma js_trim_empty_iff: "js_trim s = [] \<longleftrightarrow> list_all is_white_space s"
proof
  assume "js_trim s = []"
  then have all: "\<forall>c \<in> set (dropWhile is_white_space s). is_white_space c"
    by (simp add: js_trim_def)
  have "dropWhile is_white_space s = []"
  proof (cases "dropWhile is_white_space s")
    case Nil
    then show ?thesis .
  next
    case (Cons c cs)
    then have "\<not> is_white_space c"
      using hd_dropWhile [of is_white_space s] by simp
    moreover have "is_white_space c"
      using all Cons by simp
    ultimately show ?thesis by simp
  qed
  then show "list_all is_white_space s"
    by (simp add: list_all_iff)
next
  assume "list_all is_white_space s"
  then have e: "dropWhile is_white_space s = []"
    by (simp add: list_all_iff)
  show "js_trim s = []"
    unfolding js_trim_def e by simp
qed

text \<open>
  C1. When the query is empty or consists of white space only, or when no source is
  selected, \<open>handleSearch\<close> makes no request at all, whatever the backend would have
  answered: it leaves the state as it is and shows one error toast. When the query is not
  blank and a source is selected, it makes exactly one request, \<open>POST /search\<close>, whose
  body holds the trimmed query, the current content type and the selected source ids.
\<close>

theorem handleSearch_preconditions:
  "(query st = [] \<or> list_all is_white_space (query st) \<or> selectedSources st = [] \<longrightarrow>
      fst (handleSearch resp st) = st
      \<and> requests (snd (handleSearch resp st)) = []
      \<and> (\<exists>m. snd (handleSearch resp st) = [Toast_error m]))
   \<and> (\<not> list_all is_white_space (query st) \<and> selectedSources st \<noteq> [] \<longrightarrow>
      requests (snd (handleSearch resp st)) =
        [POST_search (JObject
          [(str ''query'', JString (js_trim (query st))),
           (str ''type'', JString (contentType st)),
           (str ''source_ids'', JArray (map JString (selectedSources st)))])])"
proof (cases "js_trim (query st) = []")
  case True
  then show ?thesis
    by (simp add: handleSearch_def handleSearch_call_def js_trim_empty_iff)
next
  case False
  then have nb: "\<not> list_all is_white_space (query st)" "query st \<noteq> []"
    by (auto simp: js_trim_empty_iff)
  show ?thesis
  proof (cases "selectedSources st = []")
    case True
    then show ?thesis
      using False nb by (simp add: handleSearch_def handleSearch_call_def)
  next
    case sel: False
    show ?thesis
      using False nb sel
      by (cases resp) (simp_all add: handleSearch_def handleSearch_call_def search_body_def)
  qed
qed

theorem handleSearch_preconditions_witness:
  "handleSearch Rejected (home_init\<lparr>query := [0x20, 0x09], selectedSources := [str ''steam'']\<rparr>)
     = (home_init\<lparr>query := [0x20, 0x09], selectedSources := [str ''steam'']\<rparr>,
        [Toast_error Digite_algo_para_buscar])
   \<and> requests (snd (handleSearch (Resolved [])
        (home_init\<lparr>query := str '' zelda '', selectedSources := [str ''steam'']\<rparr>))) =
        [POST_search (JObject
          [(str ''query'', JString (str ''zelda'')),
           (str ''type'', JString (str ''game'')),
           (str ''source_ids'', JArray [JString (str ''steam'')])])]"
  using handleSearch_preconditions
    [of "home_init\<lparr>query := [0x20, 0x09], selectedSources := [str ''steam'']\<rparr>" Rejected]
    handleSearch_preconditions
    [of "home_init\<lparr>query := str '' zelda '', selectedSources := [str ''steam'']\<rparr>" "Resolved []"]
  by (simp add: home_init_def str_def js_trim_def is_white_space_def handleSearch_def
      handleSearch_call_def)

section \<open>Submitting while a search is outstanding\<close>

text \<open>The button's path: while \<open>searching\<close> is set, a click starts nothing.\<close>

lemma button_disabled_while_searching:
  "searching st \<Longrightarrow> home_dispatch Search_button_click st = (st, [])"
  by simp

text \<open>
  C3. The claim is that no input path starts a second \<open>POST /search\<close> while the flag is
  set. The run below mounts the view, loads one source, types a query and clicks the
  button: the flag is set and one search request is outstanding. A click on the button
  is then ignored, but the Enter key in the input calls \<open>handleSearch\<close> again, which
  posts the same body a second time before the first request has settled.
\<close>

theorem enter_key_submits_while_searching:
  "(let steam = \<lparr>s_id = str ''s1'', s_name = str ''Steam'', s_type = str ''game'',
          s_url_base = str ''https://store.example/?q={query}'', s_search_method = str ''api'',
          s_config = JObject [], s_enabled = True\<rparr>;
        evs = [Mount, Sources_response (Resolved [steam]), Input_change (str ''zelda''),
               Search_button_click];
        (st, es) = home_run evs home_init;
        (st', es') = home_dispatch (Input_key_press (str ''Enter'')) st
    in searching st
       \<and> requests es = [GET_sources_by_type (str ''game''), POST_search (search_body st)]
       \<and> search_body st = JObject
           [(str ''query'', JString (str ''zelda'')),
            (str ''type'', JString (str ''game'')),
            (str ''source_ids'', JArray [JString (str ''s1'')])]
       \<and> home_dispatch Search_button_click st = (st, [])
       \<and> searching st' \<and> requests es' = [POST_search (search_body st)])"
  by (simp add: home_init_def handleKeyPress_def handleSearch_call_def search_body_def
      loadSources_call_def js_trim_def is_white_space_def str_def Let_def)

section \<open>Reloading the sources of a content type\<close>

text \<open>
  C6. A change of the content type to a new value \<open>v\<close> makes one request,
  \<open>GET /sources/by-type/v\<close>; when it resolves with the list \<open>data\<close>, the source list is
  \<open>data\<close> and the selection is the ids of all of \<open>data\<close>.
\<close>

theorem content_type_change_reloads:
  "v \<noteq> contentType st \<Longrightarrow>
     home_dispatch (Content_type_change v) st =
       (st\<lparr>contentType := v\<rparr>, [Http (GET_sources_by_type v)])
     \<and> home_run [Content_type_change v, Sources_response (Resolved data)] st =
         (st\<lparr>contentType := v, sources := data, selectedSources := map s_id data\<rparr>,
          [Http (GET_sources_by_type v)])
     \<and> set (selectedSources
           (fst (home_run [Content_type_change v, Sources_response (Resolved data)] st)))
         = s_id ` set data"
  by (simp add: loadSources_call_def)

theorem content_type_change_reloads_witness:
  "str ''movie'' \<noteq> contentType home_init \<and>
   home_run [Content_type_change (str ''movie''),
             Sources_response (Resolved [\<lparr>s_id = str ''s7'', s_name = str ''IMDb'',
               s_type = str ''movie'', s_url_base = [], s_search_method = str ''api'',
               s_config = JObject [], s_enabled = True\<rparr>])] home_init =
     (home_init\<lparr>contentType := str ''movie'',
        sources := [\<lparr>s_id = str ''s7'', s_name = str ''IMDb'',
               s_type = str ''movie'', s_url_base = [], s_search_method = str ''api'',
               s_config = JObject [], s_enabled = True\<rparr>],
        selectedSources := [str ''s7'']\<rparr>,
      [Http (GET_sources_by_type (str ''movie''))])"
  using content_type_change_reloads [of "str ''movie''" home_init
    "[\<lparr>s_id = str ''s7'', s_name = str ''IMDb'',
               s_type = str ''movie'', s_url_base = [], s_search_method = str ''api'',
               s_config = JObject [], s_enabled = True\<rparr>]"]
  by (simp add: home_init_def str_def)

section \<open>Toggling a source of the selection\<close>

text \<open>
  C10. On a selection without duplicates, \<open>toggleSource\<close> removes the id when it is
  selected and appends it when it is not, leaves every other id as it was and keeps the
  selection free of duplicates; two toggles give back the same set of ids.
\<close>

theorem toggleSource_membership:
  "distinct prev \<Longrightarrow>
     (sourceId \<in> set (toggleSource sourceId prev) \<longleftrightarrow> sourceId \<notin> set prev)
     \<and> (\<forall>i. i \<noteq> sourceId \<longrightarrow> (i \<in> set (toggleSource sourceId prev) \<longleftrightarrow> i \<in> set prev))
     \<and> (sourceId \<in> set prev \<longrightarrow> toggleSource sourceId prev = removeAll sourceId prev)
     \<and> (sourceId \<notin> set prev \<longrightarrow> toggleSource sourceId prev = prev @ [sourceId])
     \<and> distinct (toggleSource sourceId prev)
     \<and> set (toggleSource sourceId (toggleSource sourceId prev)) = set prev"
proof -
  have rm: "filter (\<lambda>i. i \<noteq> sourceId) xs = removeAll sourceId xs" for xs
    by (induction xs) auto
  assume "distinct prev"
  then show ?thesis
    by (auto simp: toggleSource_def rm distinct_removeAll)
qed

theorem toggleSource_membership_witness:
  "distinct [str ''a'', str ''b'']
   \<and> toggleSource (str ''a'') [str ''a'', str ''b''] = [str ''b'']
   \<and> toggleSource (str ''a'') (toggleSource (str ''a'') [str ''a'', str ''b'']) = [str ''b'', str ''a'']
   \<and> set (toggleSource (str ''a'') (toggleSource (str ''a'') [str ''a'', str ''b'']))
       = set [str ''a'', str ''b'']"
  using toggleSource_membership [of "[str ''a'', str ''b'']" "str ''a''"]
  by (auto simp: toggleSource_def str_def)

section \<open>Loading the admin view\<close>

text \<open>
  C7. When \<open>GET /sources\<close> fails, \<open>loadSources\<close> of the admin view keeps the source list
  (only the loading flag changes), logs the error and shows one error toast; the loading
  flag is cleared whatever the answer was.
\<close>

theorem admin_loadSources_failure:
  "admin_loadSources_settle Rejected st = (st\<lparr>loading := False\<rparr>,
       [Console_error ''Error loading sources:'', Toast_error Erro_ao_carregar_fontes])
   \<and> admin_sources (fst (admin_loadSources_settle Rejected st)) = admin_sources st
   \<and> toasts (snd (admin_loadSources_settle Rejected st)) = [Toast_error Erro_ao_carregar_fontes]
   \<and> (\<forall>resp. \<not> loading (fst (admin_loadSources_settle resp st)))"
proof -
  have "\<not> loading (fst (admin_loadSources_settle resp st))" for resp
    by (cases resp) simp_all
  then show ?thesis by simp
qed

text \<open>
  C9. Mounting the admin view makes the two requests \<open>GET /sources\<close> and \<open>POST /seed\<close>,
  the second exactly once. A failed seed call only writes to the console: the state, the
  toasts and the requests of the load are those of a load whose seed call succeeded, and
  the source list is loaded as the backend returned it.
\<close>

theorem seed_once_and_failure_logged_only:
  "requests (snd (admin_mount st)) = [GET_sources, POST_seed]
   \<and> fst (admin_mount st) = st
   \<and> count_list (requests (snd (admin_load seed_first seed list))) POST_seed = 1
   \<and> seedDatabase_settle Rejected st = (st, [Console_error ''Error seeding:''])
   \<and> fst (admin_load seed_first Rejected list) = fst (admin_load seed_first (Resolved ()) list)
   \<and> toasts (snd (admin_load seed_first Rejected list))
       = toasts (snd (admin_load seed_first (Resolved ()) list))
   \<and> requests (snd (admin_load seed_first Rejected list))
       = requests (snd (admin_load seed_first (Resolved ()) list))
   \<and> fst (admin_load seed_first Rejected (Resolved data))
       = admin_init\<lparr>admin_sources := data, loading := False\<rparr>"
  by (cases seed; cases list)
    (simp_all add: admin_mount_def admin_load_def admin_loadSources_call_def seedDatabase_call_def)

section \<open>Deleting a source\<close>

text \<open>
  C8. When the confirmation dialog is dismissed, \<open>handleDelete\<close> makes no request and
  leaves the state as it is; a \<open>DELETE /sources/{id}\<close> request is only ever made after the
  dialog was confirmed, and then for the id that was asked for.
\<close>

theorem handleDelete_confirmation:
  "(\<not> confirmed \<longrightarrow>
      handleDelete confirmed resp ident st =
        (st, [Window_confirm Tem_certeza_que_deseja_excluir_esta_fonte]))
   \<and> (DELETE_sources i \<in> set (requests (snd (handleDelete confirmed resp ident st))) \<longrightarrow>
        confirmed \<and> i = ident)
   \<and> (confirmed \<longrightarrow>
        filter is_DELETE (requests (snd (handleDelete confirmed resp ident st)))
          = [DELETE_sources ident])"
  by (cases resp) (auto simp: handleDelete_def handleDelete_call_def admin_loadSources_call_def)

theorem handleDelete_confirmation_witness:
  "handleDelete False (Resolved ()) (str ''s1'') admin_init =
     (admin_init, [Window_confirm Tem_certeza_que_deseja_excluir_esta_fonte])
   \<and> requests (snd (handleDelete True (Resolved ()) (str ''s1'') admin_init)) =
       [DELETE_sources (str ''s1''), GET_sources]"
  using handleDelete_confirmation [of False "Resolved ()" "str ''s1''" admin_init "str ''s1''"]
    handleDelete_confirmation [of True "Resolved ()" "str ''s1''" admin_init "str ''s1''"]
  by (simp add: handleDelete_def handleDelete_call_def admin_loadSources_call_def)

section \<open>Toggling the enabled flag\<close>

text \<open>
  C5. \<open>handleToggleEnabled\<close> makes one \<open>PUT /sources/{id}\<close> request whose body is the
  object with the single member \<open>enabled\<close>, the negation of the source's flag. When the
  update succeeds, the list is requested again and replaced by what the backend returns;
  when it fails, the list stays and an error toast is shown.
\<close>

theorem handleToggleEnabled_only_enabled:
  "handleToggleEnabled_call src st =
     (st, [Http (PUT_sources (s_id src) (JObject [(str ''enabled'', JBool (\<not> s_enabled src))]))])
   \<and> (\<forall>b. requests (snd (handleToggleEnabled_call src st)) = [PUT_sources (s_id src) b] \<longrightarrow>
         object_keys b = [str ''enabled''])
   \<and> handleToggleEnabled (Resolved ()) (Resolved data) src st =
       (st\<lparr>admin_sources := data, loading := False\<rparr>,
        [Http (PUT_sources (s_id src) (JObject [(str ''enabled'', JBool (\<not> s_enabled src))])),
         Http GET_sources])
   \<and> requests (snd (handleToggleEnabled (Resolved ()) list src st)) =
       [PUT_sources (s_id src) (JObject [(str ''enabled'', JBool (\<not> s_enabled src))]),
        GET_sources]
   \<and> handleToggleEnabled Rejected list src st =
       (st, [Http (PUT_sources (s_id src) (JObject [(str ''enabled'', JBool (\<not> s_enabled src))])),
             Console_error ''Error toggling source:'', Toast_error Erro_ao_atualizar_fonte])"
  by (cases list)
    (simp_all add: handleToggleEnabled_def handleToggleEnabled_call_def admin_loadSources_call_def)

theorem handleToggleEnabled_only_enabled_witness:
  "(let src = \<lparr>s_id = str ''s1'', s_name = str ''Steam'', s_type = str ''game'',
          s_url_base = [], s_search_method = str ''api'', s_config = JObject [],
          s_enabled = True\<rparr>
    in requests (snd (handleToggleEnabled_call src admin_init))
         = [PUT_sources (str ''s1'') (JObject [(str ''enabled'', JBool False)])]
       \<and> object_keys (JObject [(str ''enabled'', JBool False)]) = [str ''enabled'']
       \<and> admin_sources (fst (handleToggleEnabled (Resolved ()) (Resolved [src\<lparr>s_enabled := False\<rparr>])
            src admin_init)) = [src\<lparr>s_enabled := False\<rparr>])"
  using handleToggleEnabled_only_enabled
    [of "\<lparr>s_id = str ''s1'', s_name = str ''Steam'', s_type = str ''game'',
          s_url_base = [], s_search_method = str ''api'', s_config = JObject [],
          s_enabled = True\<rparr>" admin_init
        "[\<lparr>s_id = str ''s1'', s_name = str ''Steam'', s_type = str ''game'',
          s_url_base = [], s_search_method = str ''api'', s_config = JObject [],
          s_enabled = False\<rparr>]"]
  by (simp add: Let_def)

section \<open>Validating and submitting the source form\<close>





section \<open>Editing a source and the JSON round trip\<close>

text \<open>
  C4. For a source whose \<open>config\<close> is a canonical JSON value (an object such as
  \<open>{"a":1}\<close> in particular), \<open>handleEdit\<close> fills the form's \<open>config\<close> field with the
  serialization of the value indented by two spaces, this text parses back to the same
  value, and submitting the form unchanged sends that value as \<open>config\<close>.
\<close>

theorem config_round_trip:
  "canonical (s_config src) \<Longrightarrow>
     f_config (formData (handleEdit src st)) = SerializeJSONProperty [] (s_config src)
     \<and> gap = [0x20, 0x20]
     \<and> JSON_parse (f_config (formData (handleEdit src st))) = Some (s_config src)
     \<and> requests (snd (handleSubmit_call (handleEdit src st))) =
         [PUT_sources (s_id src) (JObject
               [(str ''name'', JString (s_name src)),
                (str ''type'', JString (s_type src)),
                (str ''url_base'', JString (s_url_base src)),
                (str ''search_method'', JString (s_search_method src)),
                (str ''config'', s_config src),
                (str ''enabled'', JBool (s_enabled src))])]"
  using JSON_parse_stringify [of "s_config src"]
  by (simp add: handleEdit_def handleSubmit_call_def submit_data_def JSON_stringify_def gap_def str_def)

text \<open>The example of the specification: \<open>{"a":1}\<close> on three lines.\<close>

lemma stringify_example:
  "JSON_stringify (JObject [(str ''a'', JNumber 1 0)])
     = str ''{'' @ [0x0A] @ str ''  '' @ [0x22] @ str ''a'' @ [0x22] @ str '': 1'' @ [0x0A] @ str ''}''"
  by code_simp

theorem config_round_trip_witness:
  "(let src = \<lparr>s_id = str ''s1'', s_name = str ''Steam'', s_type = str ''game'',
          s_url_base = [], s_search_method = str ''api'',
          s_config = JObject [(str ''a'', JNumber 1 0)], s_enabled = True\<rparr>
    in canonical (s_config src)
       \<and> f_config (formData (handleEdit src admin_init))
           = str ''{'' @ [0x0A] @ str ''  '' @ [0x22] @ str ''a'' @ [0x22] @ str '': 1'' @ [0x0A] @ str ''}''
       \<and> JSON_parse (f_config (formData (handleEdit src admin_init)))
           = Some (JObject [(str ''a'', JNumber 1 0)]))"
  using config_round_trip
    [of "\<lparr>s_id = str ''s1'', s_name = str ''Steam'', s_type = str ''game'',
          s_url_base = [], s_search_method = str ''api'',
          s_config = JObject [(str ''a'', JNumber 1 0)], s_enabled = True\<rparr>" admin_init]
    stringify_example
  by (simp add: Let_def property_order_def canonical_number_def handleEdit_def)

end
